theory Spec2Isabelle
  imports Complex_Main
begin

section \<open>K-Medians clustering (pyclustering/cluster/kmedians.py)\<close>

text \<open>
  The class \<open>kmedians\<close> of \<^verbatim>\<open>pyclustering/cluster/kmedians.py\<close> is embedded
  method by method. A point is a list of coordinates, the dataset and the
  prototypes are lists of points, a cluster is a list of dataset indices. The
  attributes of an instance are the fields of a record, and a method that
  assigns to them returns the new record.

  The two helpers imported from \<^verbatim>\<open>pyclustering.support\<close>
  (\<open>euclidean_distance_sqrt\<close> and \<open>geometric_median\<close>) are not part of the
  file; every method below takes them as the parameters \<open>distance\<close> and \<open>gm\<close>.
  Both may fail (\<open>None\<close>), which the caller sees as \<open>CollaboratorError\<close>.
  Distances live in a linearly ordered ring (\<open>int\<close>, \<open>rat\<close>, \<open>real\<close>);
  the not-a-number and infinite values of Python floats are outside the model,
  except for the initial \<open>float('inf')\<close> of \<open>changes\<close>.

  Lists are values here. Which list objects a method writes into is the
  subject of a second embedding, over an explicit store of list objects; a
  run of \<open>process\<close> that returns there is a run of \<open>process\<close> here, with the
  same clusters and prototypes (\<open>process_h_simulates\<close>).
\<close>

subsection \<open>Errors and Python list access\<close>

text \<open>\<open>DimensionMismatch\<close> is the \<open>NameError\<close> that \<open>process\<close> raises itself;
  \<open>IndexError\<close>, \<open>ValueError\<close> and \<open>TypeError\<close> are Python's own.\<close>

datatype error = DimensionMismatch | IndexError | ValueError | TypeError | CollaboratorError

text \<open>\<open>xs[i]\<close>: a negative index counts from the end, anything else out of
  range raises IndexError.\<close>

definition py_index :: "'x list \<Rightarrow> int \<Rightarrow> error + nat" where
  "py_index xs i =
     (if 0 \<le> i \<and> i < int (length xs) then Inr (nat i)
      else if i < 0 \<and> - int (length xs) \<le> i then Inr (nat (int (length xs) + i))
      else Inl IndexError)"

definition py_get :: "'x list \<Rightarrow> int \<Rightarrow> error + 'x" where
  "py_get xs i = (case py_index xs i of Inl err \<Rightarrow> Inl err | Inr j \<Rightarrow> Inr (xs ! j))"

text \<open>\<open>max(xs)\<close> raises ValueError on the empty list.\<close>

fun py_max :: "('d::linorder) list \<Rightarrow> error + 'd" where
  "py_max [] = Inl ValueError"
| "py_max (x # xs) = Inr (fold max xs x)"

subsection \<open>Engine state\<close>

record ('a, 'd) kmedians =
  pointer_data :: "'a list list"
  clusters :: "nat list list"
  medians :: "'a list list"
  tolerance :: 'd

text \<open>\<open>__init__\<close>: the dataset is stored as it is, the clusters start empty,
  the prototypes are the slice copy \<open>initial_centers[:]\<close>.\<close>

definition kmedians_init ::
  "'a list list \<Rightarrow> 'a list list \<Rightarrow> 'd \<Rightarrow> ('a, 'd) kmedians" where
  "kmedians_init data initial_centers tol =
     \<lparr> pointer_data = data, clusters = [], medians = initial_centers, tolerance = tol \<rparr>"

definition get_clusters :: "('a, 'd) kmedians \<Rightarrow> nat list list" where
  "get_clusters e = clusters e"

definition get_centers :: "('a, 'd) kmedians \<Rightarrow> 'a list list" where
  "get_centers e = medians e"

subsection \<open>Assignment step (\<open>__update_clusters\<close>)\<close>

text \<open>The inner loop over \<open>range(len(self.__medians))\<close>; the accumulator is
  \<open>(index_optim, dist_optim)\<close>, started by the caller at \<open>(-1, 0.0)\<close>.\<close>

fun scan_medians ::
  "('a list \<Rightarrow> 'a list \<Rightarrow> 'd option) \<Rightarrow> 'a list \<Rightarrow> 'a list list \<Rightarrow> nat list
   \<Rightarrow> int \<times> ('d::linordered_idom) \<Rightarrow> error + int \<times> 'd" where
  "scan_medians distance p ms [] acc = Inr acc"
| "scan_medians distance p ms (index # rest) (index_optim, dist_optim) =
     (case distance p (ms ! index) of
        None \<Rightarrow> Inl CollaboratorError
      | Some d \<Rightarrow>
          if d < dist_optim \<or> index = 0
          then scan_medians distance p ms rest (int index, d)
          else scan_medians distance p ms rest (index_optim, dist_optim))"

definition nearest ::
  "('a list \<Rightarrow> 'a list \<Rightarrow> 'd option) \<Rightarrow> 'a list \<Rightarrow> 'a list list
   \<Rightarrow> error + int \<times> ('d::linordered_idom)" where
  "nearest distance p ms = scan_medians distance p ms [0..<length ms] (- 1, 0)"

text \<open>\<open>clusters[index_optim].append(index_point)\<close>.\<close>

definition cluster_append :: "nat list list \<Rightarrow> int \<Rightarrow> nat \<Rightarrow> error + nat list list" where
  "cluster_append cs index_optim index_point =
     (case py_index cs index_optim of
        Inl err \<Rightarrow> Inl err
      | Inr k \<Rightarrow> Inr (cs[k := cs ! k @ [index_point]]))"

text \<open>The outer loop over \<open>range(len(self.__pointer_data))\<close>.\<close>

fun assign_points ::
  "('a list \<Rightarrow> 'a list \<Rightarrow> ('d::linordered_idom) option) \<Rightarrow> 'a list list \<Rightarrow> 'a list list \<Rightarrow> nat list
   \<Rightarrow> nat list list \<Rightarrow> error + nat list list" where
  "assign_points distance data ms [] cs = Inr cs"
| "assign_points distance data ms (index_point # rest) cs =
     (case nearest distance (data ! index_point) ms of
        Inl err \<Rightarrow> Inl err
      | Inr (index_optim, dist_optim) \<Rightarrow>
          (case cluster_append cs index_optim index_point of
             Inl err \<Rightarrow> Inl err
           | Inr cs' \<Rightarrow> assign_points distance data ms rest cs'))"

definition update_clusters ::
  "('a list \<Rightarrow> 'a list \<Rightarrow> ('d::linordered_idom) option) \<Rightarrow> ('a, 'd) kmedians
   \<Rightarrow> error + nat list list" where
  "update_clusters distance e =
     assign_points distance (pointer_data e) (medians e) [0..<length (pointer_data e)]
       (replicate (length (medians e)) [])"

subsection \<open>Update step (\<open>__update_medians\<close>)\<close>

fun place_medians ::
  "('a list list \<Rightarrow> nat list \<Rightarrow> nat option) \<Rightarrow> 'a list list \<Rightarrow> nat list list \<Rightarrow> nat list
   \<Rightarrow> 'a list list \<Rightarrow> error + 'a list list" where
  "place_medians gm data cs [] ms = Inr ms"
| "place_medians gm data cs (index # rest) ms =
     (case gm data (cs ! index) of
        None \<Rightarrow> Inl CollaboratorError
      | Some meadian_index \<Rightarrow>
          (case py_get data (int meadian_index) of
             Inl err \<Rightarrow> Inl err
           | Inr p \<Rightarrow> place_medians gm data cs rest (ms[index := p])))"

definition update_medians ::
  "('a list list \<Rightarrow> nat list \<Rightarrow> nat option) \<Rightarrow> ('a, 'd) kmedians \<Rightarrow> error + 'a list list" where
  "update_medians gm e =
     place_medians gm (pointer_data e) (clusters e) [0..<length (clusters e)]
       (replicate (length (clusters e)) [])"

subsection \<open>Convergence loop (\<open>process\<close>)\<close>

text \<open>The list comprehension
  \<open>[euclidean_distance_sqrt(self.__medians[index], updated_centers[index]) for index in ...]\<close>.\<close>

fun displacements ::
  "('a list \<Rightarrow> 'a list \<Rightarrow> 'd option) \<Rightarrow> 'a list list \<Rightarrow> 'a list list \<Rightarrow> nat list
   \<Rightarrow> error + 'd list" where
  "displacements distance old new [] = Inr []"
| "displacements distance old new (index # rest) =
     (case py_get new (int index) of
        Inl err \<Rightarrow> Inl err
      | Inr q \<Rightarrow>
          (case distance (old ! index) q of
             None \<Rightarrow> Inl CollaboratorError
           | Some d \<Rightarrow>
               (case displacements distance old new rest of
                  Inl err \<Rightarrow> Inl err
                | Inr ds \<Rightarrow> Inr (d # ds))))"

text \<open>One pass through the body of the while loop. An exception leaves the
  engine as it is at that moment: the clusters already replaced, the
  prototypes not yet.\<close>

definition iteration ::
  "('a list \<Rightarrow> 'a list \<Rightarrow> ('d::linordered_idom) option)
   \<Rightarrow> ('a list list \<Rightarrow> nat list \<Rightarrow> nat option)
   \<Rightarrow> ('a, 'd) kmedians \<Rightarrow> error \<times> ('a, 'd) kmedians + ('a, 'd) kmedians \<times> 'd" where
  "iteration distance gm e =
     (case update_clusters distance e of
        Inl err \<Rightarrow> Inl (err, e)
      | Inr cs \<Rightarrow>
          (let e1 = e\<lparr>clusters := cs\<rparr> in
           case update_medians gm e1 of
             Inl err \<Rightarrow> Inl (err, e1)
           | Inr updated_centers \<Rightarrow>
               (case displacements distance (medians e1) updated_centers
                       [0..<length (medians e1)] of
                  Inl err \<Rightarrow> Inl (err, e1)
                | Inr ds \<Rightarrow>
                    (case py_max ds of
                       Inl err \<Rightarrow> Inl (err, e1)
                     | Inr changes \<Rightarrow> Inr (e1\<lparr>medians := updated_centers\<rparr>, changes)))))"

text \<open>\<open>changes\<close> starts as \<open>float('inf')\<close> and is a finite distance afterwards.\<close>

datatype 'd changes = Infinity | Finite 'd

fun exceeds :: "('d::linorder) changes \<Rightarrow> 'd \<Rightarrow> bool" where
  "exceeds Infinity stop_condition = True"
| "exceeds (Finite c) stop_condition = (c > stop_condition)"

text \<open>The while loop has no iteration cap; a run that never leaves it is \<open>None\<close>.\<close>

partial_function (option) process_loop ::
  "('a list \<Rightarrow> 'a list \<Rightarrow> ('d::linordered_idom) option)
   \<Rightarrow> ('a list list \<Rightarrow> nat list \<Rightarrow> nat option)
   \<Rightarrow> 'd \<Rightarrow> 'd changes \<Rightarrow> ('a, 'd) kmedians
   \<Rightarrow> (error \<times> ('a, 'd) kmedians + ('a, 'd) kmedians) option" where
  "process_loop distance gm stop_condition changes e =
     (if exceeds changes stop_condition
      then (case iteration distance gm e of
              Inl failure \<Rightarrow> Some (Inl failure)
            | Inr (e', c) \<Rightarrow> process_loop distance gm stop_condition (Finite c) e')
      else Some (Inr e))"

declare process_loop.simps [code]

text \<open>\<open>process\<close> ends in \<open>Some (Inr e')\<close> when it returns, leaving the engine
  \<open>e'\<close>, and in \<open>Some (Inl (err, e'))\<close> when it raises \<open>err\<close>, leaving \<open>e'\<close>.\<close>

definition process ::
  "('a list \<Rightarrow> 'a list \<Rightarrow> ('d::linordered_idom) option)
   \<Rightarrow> ('a list list \<Rightarrow> nat list \<Rightarrow> nat option)
   \<Rightarrow> ('a, 'd) kmedians
   \<Rightarrow> (error \<times> ('a, 'd) kmedians + ('a, 'd) kmedians) option" where
  "process distance gm e =
     (let stop_condition = tolerance e * tolerance e in
      case py_get (pointer_data e) 0 of
        Inl err \<Rightarrow> Some (Inl (err, e))
      | Inr p0 \<Rightarrow>
          (case py_get (medians e) 0 of
             Inl err \<Rightarrow> Some (Inl (err, e))
           | Inr m0 \<Rightarrow>
               if length p0 \<noteq> length m0 then Some (Inl (DimensionMismatch, e))
               else process_loop distance gm stop_condition Infinity e))"

subsection \<open>The two collaborators, for running the engine on concrete data\<close>

text \<open>Modelled from the spec: \<open>euclidean_distance_sqrt\<close> of
  \<^verbatim>\<open>pyclustering.support\<close> is not among the sources. The spec gives it
  as the sum of squared per-dimension differences between two points of equal
  dimension, and says that points of unequal dimension fail inside it.\<close>

definition euclidean_distance_sqrt ::
  "('d::linordered_idom) list \<Rightarrow> 'd list \<Rightarrow> 'd option" where
  "euclidean_distance_sqrt p q =
     (if length p = length q
      then Some (sum_list (map (\<lambda>(x, y). (x - y) * (x - y)) (zip p q)))
      else None)"

text \<open>Modelled from the spec: three helpers of \<open>geometric_median\<close>, which
  is not among the sources. They give the sum of the distances from the
  candidate \<open>c\<close> to all points of the sequence, these sums for all candidates,
  and the first candidate with the smallest sum.\<close>

fun sum_distances :: "('d::linordered_idom) list list \<Rightarrow> nat \<Rightarrow> nat list \<Rightarrow> 'd option" where
  "sum_distances data c [] = Some 0"
| "sum_distances data c (i # rest) =
     (if c < length data \<and> i < length data
      then (case euclidean_distance_sqrt (data ! c) (data ! i) of
              None \<Rightarrow> None
            | Some d \<Rightarrow> map_option ((+) d) (sum_distances data c rest))
      else None)"

fun first_minimum :: "(nat \<times> ('d::linorder)) list \<Rightarrow> nat \<times> 'd \<Rightarrow> nat" where
  "first_minimum [] (best, s) = best"
| "first_minimum ((c, t) # rest) (best, s) =
     (if t < s then first_minimum rest (c, t) else first_minimum rest (best, s))"

fun candidate_sums ::
  "('d::linordered_idom) list list \<Rightarrow> nat list \<Rightarrow> nat list \<Rightarrow> (nat \<times> 'd) list option" where
  "candidate_sums data indices [] = Some []"
| "candidate_sums data indices (c # rest) =
     (case sum_distances data c indices of
        None \<Rightarrow> None
      | Some s \<Rightarrow> map_option ((#) (c, s)) (candidate_sums data indices rest))"

text \<open>Modelled from the spec: \<open>geometric_median\<close> of
  \<^verbatim>\<open>pyclustering.support\<close> is not among the sources. The spec gives it
  as returning, for a non-empty sequence of dataset indices, one index of that
  sequence whose point minimises the sum of the distances to all points of
  the sequence, and leaves the empty sequence undefined. Here the distance
  summed is the squared one, the first minimiser is returned, and the empty
  sequence fails. In the example of the drifting prototypes below every
  minimiser is the only one, also for the distance that is not squared.\<close>

definition geometric_median :: "('d::linordered_idom) list list \<Rightarrow> nat list \<Rightarrow> nat option" where
  "geometric_median data indices =
     (case candidate_sums data indices indices of
        None \<Rightarrow> None
      | Some [] \<Rightarrow> None
      | Some (first # others) \<Rightarrow> Some (first_minimum others first))"

section \<open>The engine over a store of list objects\<close>

text \<open>
  For the question of who mutates what, the lists the engine works on are
  objects in a store: the dataset, its points, the caller's list of initial
  centers, and every list the engine creates. A list element is a number, a
  dataset index or a reference to a list object; an address is a position in
  the store, and a new object goes to the end of the store. The attributes of
  the engine hold references. The methods are those of the class again, with
  every list read, allocation and in-place update written out, and with the
  store as it is at that moment returned also when a method raises. The two
  collaborators only read, and get the values of their arguments.
\<close>

datatype 'a val = Num 'a | Idx nat | Ref nat

type_synonym 'a store = "'a val list list"

record 'd kmedians_h =
  pointer_data_ref :: nat
  clusters_ref :: nat
  medians_ref :: nat
  tolerance_val :: 'd

definition alloc :: "'a val list \<Rightarrow> 'a store \<Rightarrow> nat \<times> 'a store" where
  "alloc obj h = (length h, h @ [obj])"

fun alloc_empty_lists :: "nat \<Rightarrow> 'a store \<Rightarrow> nat list \<times> 'a store" where
  "alloc_empty_lists 0 h = ([], h)"
| "alloc_empty_lists (Suc n) h =
     (case alloc [] h of (a, h1) \<Rightarrow>
        (case alloc_empty_lists n h1 of (others, h2) \<Rightarrow> (a # others, h2)))"

text \<open>\<open>[[] for i in range(n)]\<close>.\<close>

definition list_of_empty_lists :: "nat \<Rightarrow> 'a store \<Rightarrow> nat \<times> 'a store" where
  "list_of_empty_lists n h =
     (case alloc_empty_lists n h of (inner, h1) \<Rightarrow> alloc (map Ref inner) h1)"

definition load :: "'a store \<Rightarrow> nat \<Rightarrow> error + 'a val list" where
  "load h a = (if a < length h then Inr (h ! a) else Inl TypeError)"

text \<open>\<open>xs[i]\<close> for the list object at address \<open>a\<close>.\<close>

definition item :: "'a store \<Rightarrow> nat \<Rightarrow> int \<Rightarrow> error + 'a val" where
  "item h a i = (case load h a of Inl err \<Rightarrow> Inl err | Inr xs \<Rightarrow> py_get xs i)"

text \<open>\<open>len(v)\<close>.\<close>

definition len_of :: "'a store \<Rightarrow> 'a val \<Rightarrow> error + nat" where
  "len_of h v =
     (case v of
        Ref a \<Rightarrow> (case load h a of Inl err \<Rightarrow> Inl err | Inr xs \<Rightarrow> Inr (length xs))
      | Num x \<Rightarrow> Inl TypeError
      | Idx i \<Rightarrow> Inl TypeError)"

text \<open>What a collaborator reads from an argument: the coordinates of a point,
  the indices of a cluster, the points of the dataset.\<close>

fun coordinates :: "'a val list \<Rightarrow> error + 'a list" where
  "coordinates [] = Inr []"
| "coordinates (Num x # vs) =
     (case coordinates vs of Inl err \<Rightarrow> Inl err | Inr xs \<Rightarrow> Inr (x # xs))"
| "coordinates (v # vs) = Inl TypeError"

fun index_values :: "'a val list \<Rightarrow> error + nat list" where
  "index_values [] = Inr []"
| "index_values (Idx i # vs) =
     (case index_values vs of Inl err \<Rightarrow> Inl err | Inr js \<Rightarrow> Inr (i # js))"
| "index_values (v # vs) = Inl TypeError"

definition point_of :: "'a store \<Rightarrow> 'a val \<Rightarrow> error + 'a list" where
  "point_of h v =
     (case v of
        Ref a \<Rightarrow> (case load h a of Inl err \<Rightarrow> Inl err | Inr vs \<Rightarrow> coordinates vs)
      | Num x \<Rightarrow> Inl TypeError
      | Idx i \<Rightarrow> Inl TypeError)"

definition indices_of :: "'a store \<Rightarrow> 'a val \<Rightarrow> error + nat list" where
  "indices_of h v =
     (case v of
        Ref a \<Rightarrow> (case load h a of Inl err \<Rightarrow> Inl err | Inr vs \<Rightarrow> index_values vs)
      | Num x \<Rightarrow> Inl TypeError
      | Idx i \<Rightarrow> Inl TypeError)"

fun points_of :: "'a store \<Rightarrow> 'a val list \<Rightarrow> error + 'a list list" where
  "points_of h [] = Inr []"
| "points_of h (v # vs) =
     (case point_of h v of
        Inl err \<Rightarrow> Inl err
      | Inr p \<Rightarrow> (case points_of h vs of Inl err \<Rightarrow> Inl err | Inr ps \<Rightarrow> Inr (p # ps)))"

definition point_item :: "'a store \<Rightarrow> nat \<Rightarrow> nat \<Rightarrow> error + 'a list" where
  "point_item h a i = (case item h a (int i) of Inl err \<Rightarrow> Inl err | Inr v \<Rightarrow> point_of h v)"

text \<open>The two in-place updates: \<open>target.append(v)\<close> and \<open>xs[i] = v\<close>.\<close>

definition append_h :: "'a store \<Rightarrow> 'a val \<Rightarrow> 'a val \<Rightarrow> error + 'a store" where
  "append_h h target v =
     (case target of
        Ref a \<Rightarrow> if a < length h then Inr (h[a := h ! a @ [v]]) else Inl TypeError
      | Num x \<Rightarrow> Inl TypeError
      | Idx i \<Rightarrow> Inl TypeError)"

definition store_item :: "'a store \<Rightarrow> nat \<Rightarrow> int \<Rightarrow> 'a val \<Rightarrow> error + 'a store" where
  "store_item h a i v =
     (case load h a of
        Inl err \<Rightarrow> Inl err
      | Inr xs \<Rightarrow>
          (case py_index xs i of Inl err \<Rightarrow> Inl err | Inr k \<Rightarrow> Inr (h[a := xs[k := v]])))"

text \<open>\<open>__init__\<close>.\<close>

definition kmedians_init_h ::
  "nat \<Rightarrow> nat \<Rightarrow> 'd \<Rightarrow> 'a store \<Rightarrow> (error + 'd kmedians_h) \<times> 'a store" where
  "kmedians_init_h data initial_centers tol h =
     (case alloc [] h of (c, h1) \<Rightarrow>
        (case load h1 initial_centers of
           Inl err \<Rightarrow> (Inl err, h1)
         | Inr centers \<Rightarrow>
             (case alloc centers h1 of (m, h2) \<Rightarrow>
                (Inr \<lparr> pointer_data_ref = data, clusters_ref = c, medians_ref = m,
                       tolerance_val = tol \<rparr>, h2))))"

text \<open>\<open>__update_clusters\<close>.\<close>

fun scan_medians_h ::
  "('a list \<Rightarrow> 'a list \<Rightarrow> 'd option) \<Rightarrow> 'a store \<Rightarrow> 'd kmedians_h \<Rightarrow> nat \<Rightarrow> nat list
   \<Rightarrow> int \<times> ('d::linordered_idom) \<Rightarrow> error + int \<times> 'd" where
  "scan_medians_h distance h e index_point [] acc = Inr acc"
| "scan_medians_h distance h e index_point (index # rest) (index_optim, dist_optim) =
     (case point_item h (pointer_data_ref e) index_point of
        Inl err \<Rightarrow> Inl err
      | Inr p \<Rightarrow>
          (case point_item h (medians_ref e) index of
             Inl err \<Rightarrow> Inl err
           | Inr m \<Rightarrow>
               (case distance p m of
                  None \<Rightarrow> Inl CollaboratorError
                | Some d \<Rightarrow>
                    if d < dist_optim \<or> index = 0
                    then scan_medians_h distance h e index_point rest (int index, d)
                    else scan_medians_h distance h e index_point rest
                           (index_optim, dist_optim))))"

fun assign_points_h ::
  "('a list \<Rightarrow> 'a list \<Rightarrow> ('d::linordered_idom) option) \<Rightarrow> 'd kmedians_h \<Rightarrow> nat \<Rightarrow> nat list
   \<Rightarrow> 'a store \<Rightarrow> (error + unit) \<times> 'a store" where
  "assign_points_h distance e cl [] h = (Inr (), h)"
| "assign_points_h distance e cl (index_point # rest) h =
     (case load h (medians_ref e) of
        Inl err \<Rightarrow> (Inl err, h)
      | Inr ms \<Rightarrow>
          (case scan_medians_h distance h e index_point [0..<length ms] (- 1, 0) of
             Inl err \<Rightarrow> (Inl err, h)
           | Inr (index_optim, dist_optim) \<Rightarrow>
               (case item h cl index_optim of
                  Inl err \<Rightarrow> (Inl err, h)
                | Inr target \<Rightarrow>
                    (case append_h h target (Idx index_point) of
                       Inl err \<Rightarrow> (Inl err, h)
                     | Inr h' \<Rightarrow> assign_points_h distance e cl rest h'))))"

definition update_clusters_h ::
  "('a list \<Rightarrow> 'a list \<Rightarrow> ('d::linordered_idom) option) \<Rightarrow> 'd kmedians_h \<Rightarrow> 'a store
   \<Rightarrow> (error + nat) \<times> 'a store" where
  "update_clusters_h distance e h =
     (case load h (medians_ref e) of
        Inl err \<Rightarrow> (Inl err, h)
      | Inr ms \<Rightarrow>
          (case list_of_empty_lists (length ms) h of (cl, h1) \<Rightarrow>
             (case load h1 (pointer_data_ref e) of
                Inl err \<Rightarrow> (Inl err, h1)
              | Inr data \<Rightarrow>
                  (case assign_points_h distance e cl [0..<length data] h1 of
                     (Inl err, h2) \<Rightarrow> (Inl err, h2)
                   | (Inr u, h2) \<Rightarrow> (Inr cl, h2)))))"

text \<open>\<open>__update_medians\<close>.\<close>

fun place_medians_h ::
  "('a list list \<Rightarrow> nat list \<Rightarrow> nat option) \<Rightarrow> 'd kmedians_h \<Rightarrow> nat \<Rightarrow> nat list
   \<Rightarrow> 'a store \<Rightarrow> (error + unit) \<times> 'a store" where
  "place_medians_h gm e ml [] h = (Inr (), h)"
| "place_medians_h gm e ml (index # rest) h =
     (case load h (pointer_data_ref e) of
        Inl err \<Rightarrow> (Inl err, h)
      | Inr dvs \<Rightarrow>
     (case points_of h dvs of
        Inl err \<Rightarrow> (Inl err, h)
      | Inr data \<Rightarrow>
     (case item h (clusters_ref e) (int index) of
        Inl err \<Rightarrow> (Inl err, h)
      | Inr cv \<Rightarrow>
     (case indices_of h cv of
        Inl err \<Rightarrow> (Inl err, h)
      | Inr cluster \<Rightarrow>
     (case gm data cluster of
        None \<Rightarrow> (Inl CollaboratorError, h)
      | Some meadian_index \<Rightarrow>
     (case item h (pointer_data_ref e) (int meadian_index) of
        Inl err \<Rightarrow> (Inl err, h)
      | Inr pv \<Rightarrow>
     (case store_item h ml (int index) pv of
        Inl err \<Rightarrow> (Inl err, h)
      | Inr h' \<Rightarrow> place_medians_h gm e ml rest h')))))))"

definition update_medians_h ::
  "('a list list \<Rightarrow> nat list \<Rightarrow> nat option) \<Rightarrow> 'd kmedians_h \<Rightarrow> 'a store
   \<Rightarrow> (error + nat) \<times> 'a store" where
  "update_medians_h gm e h =
     (case load h (clusters_ref e) of
        Inl err \<Rightarrow> (Inl err, h)
      | Inr cs \<Rightarrow>
          (case list_of_empty_lists (length cs) h of (ml, h1) \<Rightarrow>
             (case place_medians_h gm e ml [0..<length cs] h1 of
                (Inl err, h2) \<Rightarrow> (Inl err, h2)
              | (Inr u, h2) \<Rightarrow> (Inr ml, h2))))"

text \<open>\<open>process\<close>.\<close>

fun displacements_h ::
  "('a list \<Rightarrow> 'a list \<Rightarrow> 'd option) \<Rightarrow> 'a store \<Rightarrow> 'd kmedians_h \<Rightarrow> nat \<Rightarrow> nat list
   \<Rightarrow> error + 'd list" where
  "displacements_h distance h e updated_centers [] = Inr []"
| "displacements_h distance h e updated_centers (index # rest) =
     (case point_item h (medians_ref e) index of
        Inl err \<Rightarrow> Inl err
      | Inr old \<Rightarrow>
          (case point_item h updated_centers index of
             Inl err \<Rightarrow> Inl err
           | Inr new \<Rightarrow>
               (case distance old new of
                  None \<Rightarrow> Inl CollaboratorError
                | Some d \<Rightarrow>
                    (case displacements_h distance h e updated_centers rest of
                       Inl err \<Rightarrow> Inl err
                     | Inr ds \<Rightarrow> Inr (d # ds)))))"

definition iteration_h ::
  "('a list \<Rightarrow> 'a list \<Rightarrow> ('d::linordered_idom) option)
   \<Rightarrow> ('a list list \<Rightarrow> nat list \<Rightarrow> nat option)
   \<Rightarrow> 'd kmedians_h \<Rightarrow> 'a store \<Rightarrow> (error + 'd) \<times> 'd kmedians_h \<times> 'a store" where
  "iteration_h distance gm e h =
     (case update_clusters_h distance e h of
        (Inl err, h1) \<Rightarrow> (Inl err, e, h1)
      | (Inr cl, h1) \<Rightarrow>
          (let e1 = e\<lparr>clusters_ref := cl\<rparr> in
           case update_medians_h gm e1 h1 of
             (Inl err, h2) \<Rightarrow> (Inl err, e1, h2)
           | (Inr updated_centers, h2) \<Rightarrow>
               (case load h2 (medians_ref e1) of
                  Inl err \<Rightarrow> (Inl err, e1, h2)
                | Inr ms \<Rightarrow>
                    (case displacements_h distance h2 e1 updated_centers [0..<length ms] of
                       Inl err \<Rightarrow> (Inl err, e1, h2)
                     | Inr ds \<Rightarrow>
                         (case py_max ds of
                            Inl err \<Rightarrow> (Inl err, e1, h2)
                          | Inr changes \<Rightarrow>
                              (Inr changes, e1\<lparr>medians_ref := updated_centers\<rparr>, h2))))))"

partial_function (option) process_loop_h ::
  "('a list \<Rightarrow> 'a list \<Rightarrow> ('d::linordered_idom) option)
   \<Rightarrow> ('a list list \<Rightarrow> nat list \<Rightarrow> nat option)
   \<Rightarrow> 'd \<Rightarrow> 'd changes \<Rightarrow> 'd kmedians_h \<Rightarrow> 'a store
   \<Rightarrow> ((error + unit) \<times> 'd kmedians_h \<times> 'a store) option" where
  "process_loop_h distance gm stop_condition changes e h =
     (if exceeds changes stop_condition
      then (case iteration_h distance gm e h of
              (Inl err, e1, h1) \<Rightarrow> Some (Inl err, e1, h1)
            | (Inr c, e1, h1) \<Rightarrow> process_loop_h distance gm stop_condition (Finite c) e1 h1)
      else Some (Inr (), e, h))"

declare process_loop_h.simps [code]

definition process_h ::
  "('a list \<Rightarrow> 'a list \<Rightarrow> ('d::linordered_idom) option)
   \<Rightarrow> ('a list list \<Rightarrow> nat list \<Rightarrow> nat option)
   \<Rightarrow> 'd kmedians_h \<Rightarrow> 'a store
   \<Rightarrow> ((error + unit) \<times> 'd kmedians_h \<times> 'a store) option" where
  "process_h distance gm e h =
     (let stop_condition = tolerance_val e * tolerance_val e in
      case item h (pointer_data_ref e) 0 of
        Inl err \<Rightarrow> Some (Inl err, e, h)
      | Inr p0 \<Rightarrow>
     (case len_of h p0 of
        Inl err \<Rightarrow> Some (Inl err, e, h)
      | Inr dimension \<Rightarrow>
     (case item h (medians_ref e) 0 of
        Inl err \<Rightarrow> Some (Inl err, e, h)
      | Inr m0 \<Rightarrow>
     (case len_of h m0 of
        Inl err \<Rightarrow> Some (Inl err, e, h)
      | Inr dimension_medians \<Rightarrow>
          if dimension \<noteq> dimension_medians then Some (Inl DimensionMismatch, e, h)
          else process_loop_h distance gm stop_condition Infinity e h))))"

subsection \<open>Reading the store as values\<close>

text \<open>What the store holds, read as values: the list of points at an address,
  the list of clusters at an address, and the engine a store engine stands
  for.\<close>

definition dataset_of :: "'a store \<Rightarrow> nat \<Rightarrow> error + 'a list list" where
  "dataset_of h a = (case load h a of Inl err \<Rightarrow> Inl err | Inr vs \<Rightarrow> points_of h vs)"

fun index_lists_of :: "'a store \<Rightarrow> 'a val list \<Rightarrow> error + nat list list" where
  "index_lists_of h [] = Inr []"
| "index_lists_of h (v # vs) =
     (case indices_of h v of
        Inl err \<Rightarrow> Inl err
      | Inr c \<Rightarrow>
          (case index_lists_of h vs of Inl err \<Rightarrow> Inl err | Inr cs \<Rightarrow> Inr (c # cs)))"

definition clusters_of :: "'a store \<Rightarrow> nat \<Rightarrow> error + nat list list" where
  "clusters_of h a = (case load h a of Inl err \<Rightarrow> Inl err | Inr vs \<Rightarrow> index_lists_of h vs)"

definition represents :: "'a store \<Rightarrow> 'd kmedians_h \<Rightarrow> ('a, 'd) kmedians \<Rightarrow> bool" where
  "represents h eh e \<longleftrightarrow>
     dataset_of h (pointer_data_ref eh) = Inr (pointer_data e) \<and>
     clusters_of h (clusters_ref eh) = Inr (clusters e) \<and>
     dataset_of h (medians_ref eh) = Inr (medians e) \<and>
     tolerance_val eh = tolerance e"

text \<open>The clusters under construction: the list at \<open>cl\<close> refers to the \<open>K\<close>
  objects from \<open>n0\<close> on, which hold the index lists \<open>cs\<close>.\<close>

definition holds_clusters :: "'a store \<Rightarrow> nat \<Rightarrow> nat \<Rightarrow> nat list list \<Rightarrow> bool" where
  "holds_clusters h n0 cl cs \<longleftrightarrow>
     cl = n0 + length cs \<and> length h = Suc cl \<and>
     h ! cl = map Ref [n0..<n0 + length cs] \<and>
     (\<forall>k<length cs. h ! (n0 + k) = map Idx (cs ! k))"

subsection \<open>Frames and an example store\<close>

text \<open>Every list object of the store \<open>h\<close> is still there in \<open>h'\<close>, with the
  same elements.\<close>

definition extends :: "'a store \<Rightarrow> 'a store \<Rightarrow> bool" where
  "extends h h' \<longleftrightarrow> length h \<le> length h' \<and> (\<forall>a<length h. h' ! a = h ! a)"

text \<open>A store with the dataset \<open>[[0], [1], [10], [11]]\<close> at address 4 and the
  caller's initial centers \<open>[[0], [10]]\<close> at address 7.\<close>

definition caller_store :: "real store" where
  "caller_store =
     [[Num 0], [Num 1], [Num 10], [Num 11], [Ref 0, Ref 1, Ref 2, Ref 3],
      [Num 0], [Num 10], [Ref 5, Ref 6]]"


section \<open>Notions used to state the properties\<close>

text \<open>Prototype \<open>k\<close> is the first nearest one among the first \<open>n\<close> prototypes:
  its distance \<open>d\<close> to the point \<open>p\<close> is minimal, and strictly smaller than
  the distance of every earlier prototype.\<close>

definition first_min_at ::
  "('a list \<Rightarrow> 'a list \<Rightarrow> ('d::linorder) option) \<Rightarrow> 'a list \<Rightarrow> 'a list list
   \<Rightarrow> nat \<Rightarrow> nat \<Rightarrow> 'd \<Rightarrow> bool" where
  "first_min_at distance p ms n k d \<longleftrightarrow>
     k < n \<and> distance p (ms ! k) = Some d \<and>
     (\<forall>j<n. \<exists>dj. distance p (ms ! j) = Some dj \<and> d \<le> dj) \<and>
     (\<forall>j<k. \<exists>dj. distance p (ms ! j) = Some dj \<and> d < dj)"

text \<open>The inner loop of the assignment step ends with \<open>index_optim = k\<close> for
  dataset index \<open>i\<close>.\<close>

definition assigned ::
  "('a list \<Rightarrow> 'a list \<Rightarrow> ('d::linordered_idom) option) \<Rightarrow> 'a list list \<Rightarrow> 'a list list
   \<Rightarrow> nat \<Rightarrow> nat \<Rightarrow> bool" where
  "assigned distance data ms i k \<longleftrightarrow>
     (case nearest distance (data ! i) ms of Inl err \<Rightarrow> False | Inr (io, d) \<Rightarrow> io = int k)"



text \<open>\<open>run n\<close> is the state of the while loop after \<open>n\<close> passes through its
  body, started with the given value of \<open>changes\<close>; an exception in a pass
  ends the run.\<close>

fun run ::
  "('a list \<Rightarrow> 'a list \<Rightarrow> ('d::linordered_idom) option)
   \<Rightarrow> ('a list list \<Rightarrow> nat list \<Rightarrow> nat option)
   \<Rightarrow> nat \<Rightarrow> 'd changes \<times> ('a, 'd) kmedians
   \<Rightarrow> error \<times> ('a, 'd) kmedians + 'd changes \<times> ('a, 'd) kmedians" where
  "run distance gm 0 (changes, e) = Inr (changes, e)"
| "run distance gm (Suc n) (changes, e) =
     (case iteration distance gm e of
        Inl failure \<Rightarrow> Inl failure
      | Inr (e', c) \<Rightarrow> run distance gm n (Finite c, e'))"




section \<open>Example engines\<close>

text \<open>Three points on a line and two prototypes; the middle point is at the
  same distance from both prototypes.\<close>

definition tie_engine :: "(int, int) kmedians" where
  "tie_engine = kmedians_init [[0], [2], [4]] [[1], [3]] 1"


text \<open>The dimension check of the spec's test: points of dimension 2, a
  prototype of dimension 3.\<close>

definition mismatch_engine :: "(real, real) kmedians" where
  "mismatch_engine = kmedians_init [[0, 0], [1, 1]] [[0, 0, 0]] 0.25"

text \<open>The two squares again, with prototypes that move in the first pass of
  the loop and stay in the second.\<close>

definition two_pass_engine :: "(real, real) kmedians" where
  "two_pass_engine = kmedians_init
     [[0, 0], [0, 1], [1, 0], [1, 1], [10, 10], [10, 11], [11, 10], [11, 11]]
     [[3, 3], [8, 8]] 0.25"

text \<open>The engine \<open>process()\<close> leaves behind on the two squares.\<close>

definition squares_clustered :: "(real, real) kmedians" where
  "squares_clustered =
     \<lparr> pointer_data = [[0, 0], [0, 1], [1, 0], [1, 1], [10, 10], [10, 11], [11, 10], [11, 11]],
       clusters = [[0, 1, 2, 3], [4, 5, 6, 7]],
       medians = [[0, 0], [10, 10]],
       tolerance = 0.25 \<rparr>"





text \<open>The engine and the store after \<open>__init__\<close> on the caller's store, and
  after \<open>process()\<close>.\<close>

definition constructed_h :: "real kmedians_h" where
  "constructed_h =
     \<lparr> pointer_data_ref = 4, clusters_ref = 8, medians_ref = 9, tolerance_val = 0.25 \<rparr>"

definition constructed_store :: "real store" where
  "constructed_store = caller_store @ [[], [Ref 5, Ref 6]]"

definition clustered_h :: "real kmedians_h" where
  "clustered_h =
     \<lparr> pointer_data_ref = 4, clusters_ref = 12, medians_ref = 15, tolerance_val = 0.25 \<rparr>"

definition clustered_store :: "real store" where
  "clustered_store =
     constructed_store @
       [[Idx 0, Idx 1], [Idx 2, Idx 3], [Ref 10, Ref 11], [], [], [Ref 0, Ref 2]]"

section \<open>Lemmas about the value model\<close>

lemma py_index_nat: "py_index xs (int k) = (if k < length xs then Inr k else Inl IndexError)"
  by (simp add: py_index_def)

lemma py_index_Inr: "py_index xs i = Inr k \<Longrightarrow> k < length xs"
  by (auto simp: py_index_def split: if_splits)

lemma py_index_empty: "py_index [] i = Inl IndexError"
  by (simp add: py_index_def)

lemma py_get_nat: "py_get xs (int k) = (if k < length xs then Inr (xs ! k) else Inl IndexError)"
  by (simp add: py_get_def py_index_nat)

lemma py_get_0: "py_get xs 0 = (case xs of [] \<Rightarrow> Inl IndexError | x # _ \<Rightarrow> Inr x)"
  using py_get_nat [of xs 0] by (cases xs) simp_all

lemma scan_medians_append:
  "scan_medians distance p ms (xs @ ys) acc =
     (case scan_medians distance p ms xs acc of
        Inl err \<Rightarrow> Inl err
      | Inr acc' \<Rightarrow> scan_medians distance p ms ys acc')"
proof (induction xs arbitrary: acc)
  case Nil
  show ?case by simp
next
  case (Cons x xs)
  obtain io dopt where acc: "acc = (io, dopt)" by (cases acc)
  show ?case unfolding acc by (simp add: Cons.IH split: option.splits)
qed

lemma scan_medians_prefix:
  "0 < n \<Longrightarrow> scan_medians distance p ms [0..<n] (- 1, 0) = Inr (io, dopt) \<Longrightarrow>
   \<exists>k. io = int k \<and> first_min_at distance p ms n k dopt"
proof (induction n arbitrary: io dopt)
  case 0
  then show ?case by simp
next
  case (Suc n)
  show ?case
  proof (cases "n = 0")
    case True
    with Suc.prems(2) show ?thesis
      by (auto simp: first_min_at_def split: option.splits)
  next
    case False
    then have pos: "0 < n" by simp
    from Suc.prems(2) obtain io0 d0 where
      pre: "scan_medians distance p ms [0..<n] (- 1, 0) = Inr (io0, d0)" and
      step: "scan_medians distance p ms [n] (io0, d0) = Inr (io, dopt)"
      by (auto simp: scan_medians_append split: sum.splits)
    from Suc.IH [OF pos pre] obtain k0 where
      k0: "io0 = int k0" "first_min_at distance p ms n k0 d0" by blast
    from step obtain dn where dn: "distance p (ms ! n) = Some dn"
      by (auto split: option.splits)
    show ?thesis
    proof (cases "dn < d0")
      case True
      with step dn False have res: "io = int n" "dopt = dn" by auto
      have "first_min_at distance p ms (Suc n) n dn"
        using k0(2) True dn unfolding first_min_at_def
        by (auto simp: less_Suc_eq)
      with res show ?thesis by blast
    next
      case ge: False
      with step dn False have res: "io = io0" "dopt = d0" by auto
      have "first_min_at distance p ms (Suc n) k0 d0"
        using k0(2) ge dn unfolding first_min_at_def
        by (auto simp: less_Suc_eq)
      with res k0(1) show ?thesis by blast
    qed
  qed
qed

lemma first_min_at_unique:
  "first_min_at distance p ms n k d \<Longrightarrow> first_min_at distance p ms n k' d' \<Longrightarrow> k = k' \<and> d = d'"
  unfolding first_min_at_def
  by (metis linorder_neqE_nat not_less option.inject)

lemma scan_medians_total:
  "\<forall>j\<in>set xs. distance p (ms ! j) \<noteq> None \<Longrightarrow> \<exists>r. scan_medians distance p ms xs acc = Inr r"
proof (induction xs arbitrary: acc)
  case Nil
  show ?case by simp
next
  case (Cons x xs)
  obtain io dopt where acc: "acc = (io, dopt)" by (cases acc)
  from Cons.prems obtain d where d: "distance p (ms ! x) = Some d" by auto
  from Cons.prems have rest: "\<forall>j\<in>set xs. distance p (ms ! j) \<noteq> None" by simp
  show ?case unfolding acc using d Cons.IH [OF rest] by simp
qed

lemma nearest_Inr:
  "ms \<noteq> [] \<Longrightarrow> nearest distance p ms = Inr (io, d) \<Longrightarrow>
   \<exists>k. io = int k \<and> first_min_at distance p ms (length ms) k d"
  unfolding nearest_def by (rule scan_medians_prefix) simp_all

lemma nearest_empty: "nearest distance p [] = Inr (- 1, 0)"
  by (simp add: nearest_def)

lemma nearest_total:
  "\<forall>j<length ms. distance p (ms ! j) \<noteq> None \<Longrightarrow> \<exists>r. nearest distance p ms = Inr r"
  unfolding nearest_def by (rule scan_medians_total) simp

lemma assign_points_append:
  "assign_points distance data ms (xs @ ys) cs =
     (case assign_points distance data ms xs cs of
        Inl err \<Rightarrow> Inl err
      | Inr cs' \<Rightarrow> assign_points distance data ms ys cs')"
  by (induction xs arbitrary: cs) (auto split: sum.splits prod.splits)

lemma assign_points_prefix:
  "assign_points distance data ms [0..<n] (replicate (length ms) []) = Inr cs \<Longrightarrow>
   length cs = length ms \<and>
   (\<forall>k<length ms. cs ! k = filter (\<lambda>i. assigned distance data ms i k) [0..<n]) \<and>
   (\<forall>i<n. \<exists>k<length ms. assigned distance data ms i k)"
proof (induction n arbitrary: cs)
  case 0
  then show ?case by auto
next
  case (Suc n)
  from Suc.prems obtain cs0 where
    pre: "assign_points distance data ms [0..<n] (replicate (length ms) []) = Inr cs0" and
    step: "assign_points distance data ms [n] cs0 = Inr cs"
    by (auto simp: assign_points_append split: sum.splits)
  from Suc.IH [OF pre] have
    len0: "length cs0 = length ms" and
    fil0: "\<And>k. k < length ms \<Longrightarrow> cs0 ! k = filter (\<lambda>i. assigned distance data ms i k) [0..<n]" and
    all0: "\<And>i. i < n \<Longrightarrow> \<exists>k<length ms. assigned distance data ms i k"
    by auto
  from step obtain io d k where
    near: "nearest distance (data ! n) ms = Inr (io, d)" and
    idx: "py_index cs0 io = Inr k" and
    cs: "cs = cs0[k := cs0 ! k @ [n]]"
    by (auto simp: cluster_append_def split: sum.splits prod.splits)
  from idx have k: "k < length ms" using py_index_Inr len0 by fastforce
  then have "ms \<noteq> []" by auto
  from nearest_Inr [OF this near] obtain k' where
    k': "io = int k'" "k' < length ms" by (auto simp: first_min_at_def)
  with idx len0 have "k' = k" by (simp add: py_index_nat)
  with k' near have at_n: "\<And>j. assigned distance data ms n j \<longleftrightarrow> j = k"
    by (auto simp: assigned_def)
  have "cs ! j = filter (\<lambda>i. assigned distance data ms i j) [0..<Suc n]" if "j < length ms" for j
    using that cs len0 fil0 [OF that] at_n by (cases "j = k") simp_all
  moreover have "\<exists>j<length ms. assigned distance data ms i j" if "i < Suc n" for i
    using that all0 at_n k by (cases "i = n") (auto simp: less_Suc_eq)
  moreover have "length cs = length ms" using cs len0 by simp
  ultimately show ?case by blast
qed


lemma assigned_first_min:
  "k < length ms \<Longrightarrow>
   assigned distance data ms i k \<longleftrightarrow>
     (\<exists>d. nearest distance (data ! i) ms = Inr (int k, d) \<and> first_min_at distance (data ! i) ms (length ms) k d)"
proof -
  assume k: "k < length ms"
  then have ne: "ms \<noteq> []" by auto
  show ?thesis
  proof
    assume "assigned distance data ms i k"
    then obtain d where near: "nearest distance (data ! i) ms = Inr (int k, d)"
      by (auto simp: assigned_def split: sum.splits prod.splits)
    from nearest_Inr [OF ne near] have "first_min_at distance (data ! i) ms (length ms) k d"
      by auto
    with near show "\<exists>d. nearest distance (data ! i) ms = Inr (int k, d) \<and>
        first_min_at distance (data ! i) ms (length ms) k d" by blast
  next
    assume "\<exists>d. nearest distance (data ! i) ms = Inr (int k, d) \<and>
        first_min_at distance (data ! i) ms (length ms) k d"
    then show "assigned distance data ms i k" by (auto simp: assigned_def)
  qed
qed

lemma assign_points_total:
  assumes "ms \<noteq> []"
    and "\<forall>i\<in>set xs. \<forall>j<length ms. distance (data ! i) (ms ! j) \<noteq> None"
    and "length cs = length ms"
  shows "\<exists>cs'. assign_points distance data ms xs cs = Inr cs'"
  using assms(2,3)
proof (induction xs arbitrary: cs)
  case Nil
  show ?case by simp
next
  case (Cons x xs)
  from Cons.prems(1) have "\<forall>j<length ms. distance (data ! x) (ms ! j) \<noteq> None" by simp
  from nearest_total [of ms distance "data ! x", OF this] obtain io d where
    near: "nearest distance (data ! x) ms = Inr (io, d)" by fastforce
  from nearest_Inr [OF assms(1) near] obtain k where
    k: "io = int k" "k < length ms" by (auto simp: first_min_at_def)
  let ?cs = "cs[k := cs ! k @ [x]]"
  have app: "cluster_append cs io x = Inr ?cs"
    using k Cons.prems(2) by (simp add: cluster_append_def py_index_nat)
  have "\<exists>cs'. assign_points distance data ms xs ?cs = Inr cs'"
    using Cons.IH [of ?cs] Cons.prems by simp
  with near app show ?case by simp
qed






lemma update_clusters_length:
  "update_clusters distance e = Inr cs \<Longrightarrow> length cs = length (medians e)"
  unfolding update_clusters_def using assign_points_prefix by blast

lemma place_medians_Inr:
  "place_medians gm data cs xs ms = Inr ms' \<Longrightarrow> distinct xs \<Longrightarrow>
   length ms' = length ms \<and>
   (\<forall>i\<in>set xs. i < length ms \<longrightarrow>
      (\<exists>j. gm data (cs ! i) = Some j \<and> j < length data \<and> ms' ! i = data ! j)) \<and>
   (\<forall>i. i \<notin> set xs \<longrightarrow> ms' ! i = ms ! i)"
proof (induction xs arbitrary: ms)
  case Nil
  then show ?case by simp
next
  case (Cons x xs)
  from Cons.prems(1) obtain j where
    j: "gm data (cs ! x) = Some j" "j < length data" and
    rest: "place_medians gm data cs xs (ms[x := data ! j]) = Inr ms'"
    by (auto simp: py_get_nat split: option.splits sum.splits if_splits)
  from Cons.prems(2) have dx: "x \<notin> set xs" "distinct xs" by simp_all
  from Cons.IH [OF rest dx(2)] have
    len: "length ms' = length ms" and
    inx: "\<And>i. i \<in> set xs \<Longrightarrow> i < length ms \<Longrightarrow>
            \<exists>j. gm data (cs ! i) = Some j \<and> j < length data \<and> ms' ! i = data ! j" and
    out: "\<And>i. i \<notin> set xs \<Longrightarrow> ms' ! i = (ms[x := data ! j]) ! i"
    by auto
  have "\<exists>j. gm data (cs ! i) = Some j \<and> j < length data \<and> ms' ! i = data ! j"
    if "i \<in> set (x # xs)" "i < length ms" for i
  proof (cases "i = x")
    case True
    with out [OF dx(1)] that(2) j show ?thesis by simp
  next
    case False
    with that inx show ?thesis by simp
  qed
  moreover have "ms' ! i = ms ! i" if "i \<notin> set (x # xs)" for i
    using that out [of i] by simp
  ultimately show ?case using len by blast
qed

lemma place_medians_total:
  "\<forall>i\<in>set xs. \<exists>j. gm data (cs ! i) = Some j \<and> j < length data \<Longrightarrow>
   \<exists>ms'. place_medians gm data cs xs ms = Inr ms'"
proof (induction xs arbitrary: ms)
  case Nil
  show ?case by simp
next
  case (Cons x xs)
  from Cons.prems obtain j where j: "gm data (cs ! x) = Some j" "j < length data" by auto
  from Cons.prems have "\<forall>i\<in>set xs. \<exists>j. gm data (cs ! i) = Some j \<and> j < length data"
    by simp
  from Cons.IH [OF this, of "ms[x := data ! j]"] j show ?case
    by (simp add: py_get_nat)
qed

lemma update_medians_Inr:
  "update_medians gm e = Inr uc \<Longrightarrow>
   length uc = length (clusters e) \<and>
   (\<forall>i<length (clusters e).
      \<exists>j. gm (pointer_data e) (clusters e ! i) = Some j \<and> j < length (pointer_data e) \<and>
          uc ! i = pointer_data e ! j)"
  unfolding update_medians_def
  using place_medians_Inr [of gm "pointer_data e" "clusters e" "[0..<length (clusters e)]"
      "replicate (length (clusters e)) []" uc]
  by simp

lemma displacements_Inr:
  "displacements distance old new xs = Inr ds \<Longrightarrow>
   length ds = length xs \<and>
   (\<forall>i<length xs. xs ! i < length new \<and> distance (old ! (xs ! i)) (new ! (xs ! i)) = Some (ds ! i))"
proof (induction xs arbitrary: ds)
  case Nil
  then show ?case by simp
next
  case (Cons x xs)
  from Cons.prems obtain d ds' where
    x: "x < length new" "distance (old ! x) (new ! x) = Some d" and
    rest: "displacements distance old new xs = Inr ds'" and ds: "ds = d # ds'"
    by (auto simp: py_get_nat split: option.splits sum.splits if_splits)
  from Cons.IH [OF rest] x ds show ?case
    by (auto simp: nth_Cons split: nat.splits)
qed


lemma py_max_Inr: "py_max ds = Inr c \<Longrightarrow> ds \<noteq> [] \<and> c = Max (set ds)"
  using Max.set_eq_fold [symmetric] by (cases ds) fastforce+

lemma iteration_Inr:
  "iteration distance gm e = Inr (e', c) \<Longrightarrow>
   \<exists>cs uc ds. update_clusters distance e = Inr cs \<and>
     update_medians gm (e\<lparr>clusters := cs\<rparr>) = Inr uc \<and>
     displacements distance (medians e) uc [0..<length (medians e)] = Inr ds \<and>
     py_max ds = Inr c \<and> e' = e\<lparr>clusters := cs, medians := uc\<rparr>"
  unfolding iteration_def by (auto simp: Let_def split: sum.splits)

lemma iteration_frame:
  "iteration distance gm e = Inr (e', c) \<Longrightarrow>
   pointer_data e' = pointer_data e \<and> tolerance e' = tolerance e \<and>
   length (medians e') = length (medians e) \<and> length (clusters e') = length (medians e) \<and>
   medians e \<noteq> []"
proof -
  assume a: "iteration distance gm e = Inr (e', c)"
  from iteration_Inr [OF a] obtain cs uc ds where
    cs: "update_clusters distance e = Inr cs" and
    uc: "update_medians gm (e\<lparr>clusters := cs\<rparr>) = Inr uc" and
    ds: "displacements distance (medians e) uc [0..<length (medians e)] = Inr ds" and
    mx: "py_max ds = Inr c" and e': "e' = e\<lparr>clusters := cs, medians := uc\<rparr>"
    by blast
  from update_clusters_length [OF cs] have l1: "length cs = length (medians e)" .
  from update_medians_Inr [OF uc] have l2: "length uc = length cs" by simp
  from displacements_Inr [OF ds] py_max_Inr [OF mx] have "medians e \<noteq> []" by auto
  with l1 l2 e' show ?thesis by simp
qed

lemma run_frame:
  "run distance gm n (ch, e) = Inr (c, e') \<Longrightarrow>
   pointer_data e' = pointer_data e \<and> tolerance e' = tolerance e \<and>
   length (medians e') = length (medians e)"
proof (induction n arbitrary: ch e)
  case 0
  then show ?case by simp
next
  case (Suc n)
  from Suc.prems obtain e1 c1 where
    it: "iteration distance gm e = Inr (e1, c1)" and
    rest: "run distance gm n (Finite c1, e1) = Inr (c, e')"
    by (auto split: sum.splits)
  from Suc.IH [OF rest] iteration_frame [OF it] show ?case by simp
qed



lemma update_clusters_filter:
  assumes "update_clusters distance e = Inr cs"
  shows "cs = map (\<lambda>k. filter (\<lambda>i. assigned distance (pointer_data e) (medians e) i k)
                     [0..<length (pointer_data e)]) [0..<length (medians e)]"
    and "\<forall>i<length (pointer_data e). \<exists>k<length (medians e).
           assigned distance (pointer_data e) (medians e) i k"
proof -
  from assign_points_prefix [OF assms [unfolded update_clusters_def]] have
    len: "length cs = length (medians e)" and
    fil: "\<And>k. k < length (medians e) \<Longrightarrow>
       cs ! k = filter (\<lambda>i. assigned distance (pointer_data e) (medians e) i k)
                  [0..<length (pointer_data e)]" and
    ex: "\<forall>i<length (pointer_data e). \<exists>k<length (medians e).
           assigned distance (pointer_data e) (medians e) i k"
    by auto
  show "cs = map (\<lambda>k. filter (\<lambda>i. assigned distance (pointer_data e) (medians e) i k)
                     [0..<length (pointer_data e)]) [0..<length (medians e)]"
    using len fil by (intro nth_equalityI) simp_all
  show "\<forall>i<length (pointer_data e). \<exists>k<length (medians e).
           assigned distance (pointer_data e) (medians e) i k"
    by (rule ex)
qed


lemma update_clusters_members:
  assumes "update_clusters distance e = Inr cs" and "k < length (medians e)"
  shows "i \<in> set (cs ! k) \<longleftrightarrow>
     i < length (pointer_data e) \<and> assigned distance (pointer_data e) (medians e) i k"
  using assms(2) by (subst update_clusters_filter(1) [OF assms(1)]) auto

lemma process_unfold:
  "process distance gm e =
     (if pointer_data e = [] \<or> medians e = [] then Some (Inl (IndexError, e))
      else if length (pointer_data e ! 0) \<noteq> length (medians e ! 0)
           then Some (Inl (DimensionMismatch, e))
           else process_loop distance gm (tolerance e * tolerance e) Infinity e)"
proof (cases "pointer_data e")
  case Nil
  then show ?thesis by (simp add: process_def py_get_0)
next
  case data: (Cons p0 ps)
  show ?thesis
  proof (cases "medians e")
    case Nil
    with data show ?thesis by (simp add: process_def py_get_0)
  next
    case (Cons m0 ms)
    with data show ?thesis by (simp add: process_def py_get_0)
  qed
qed




lemma scan_medians_Inl:
  "scan_medians distance p ms xs acc = Inl err \<Longrightarrow> err = CollaboratorError"
proof (induction xs arbitrary: acc)
  case Nil
  then show ?case by simp
next
  case (Cons x xs)
  obtain io dopt where "acc = (io, dopt)" by (cases acc)
  with Cons show ?case by (auto split: option.splits if_splits)
qed

lemma assign_points_Inl:
  "assign_points distance data ms xs cs = Inl err \<Longrightarrow> err \<noteq> DimensionMismatch"
proof (induction xs arbitrary: cs)
  case Nil
  then show ?case by simp
next
  case (Cons x xs)
  then show ?case
    by (auto simp: nearest_def cluster_append_def py_index_def
        dest: scan_medians_Inl split: sum.splits prod.splits if_splits)
qed

lemma place_medians_Inl:
  "place_medians gm data cs xs ms = Inl err \<Longrightarrow> err \<noteq> DimensionMismatch"
proof (induction xs arbitrary: ms)
  case Nil
  then show ?case by simp
next
  case (Cons x xs)
  then show ?case
    by (auto simp: py_get_nat split: option.splits sum.splits if_splits)
qed

lemma displacements_Inl:
  "displacements distance old new xs = Inl err \<Longrightarrow> err \<noteq> DimensionMismatch"
proof (induction xs)
  case Nil
  then show ?case by simp
next
  case (Cons x xs)
  then show ?case
    by (auto simp: py_get_nat split: option.splits sum.splits if_splits)
qed

lemma py_max_Inl: "py_max ds = Inl err \<Longrightarrow> err = ValueError"
  by (cases ds) simp_all

lemma iteration_Inl:
  assumes "iteration distance gm e = Inl (err, s)"
  shows "err \<noteq> DimensionMismatch \<and> pointer_data s = pointer_data e \<and>
     medians s = medians e \<and> tolerance s = tolerance e"
proof (cases "update_clusters distance e")
  case (Inl err1)
  with assms have "err = err1" "s = e" by (simp_all add: iteration_def)
  with Inl assign_points_Inl show ?thesis unfolding update_clusters_def by fastforce
next
  case cs: (Inr cs)
  let ?e1 = "e\<lparr>clusters := cs\<rparr>"
  show ?thesis
  proof (cases "update_medians gm ?e1")
    case (Inl err1)
    with assms cs have "err = err1" "s = ?e1" by (simp_all add: iteration_def)
    with Inl place_medians_Inl show ?thesis unfolding update_medians_def by fastforce
  next
    case uc: (Inr uc)
    show ?thesis
    proof (cases "displacements distance (medians e) uc [0..<length (medians e)]")
      case (Inl err1)
      with assms cs uc have "err = err1" "s = ?e1" by (simp_all add: iteration_def)
      with Inl displacements_Inl show ?thesis by fastforce
    next
      case ds: (Inr ds)
      show ?thesis
      proof (cases "py_max ds")
        case (Inl err1)
        with assms cs uc ds have "err = err1" "s = ?e1" by (simp_all add: iteration_def)
        with Inl py_max_Inl show ?thesis by fastforce
      next
        case (Inr c)
        with assms cs uc ds show ?thesis by (simp add: iteration_def)
      qed
    qed
  qed
qed

lemma process_loop_failure:
  fixes stop :: "'d::linordered_idom" and e :: "('a, 'd) kmedians"
  assumes "process_loop distance gm stop ch e = Some r"
  shows "\<forall>failure. r = Inl failure \<longrightarrow>
     (\<exists>n c e0. run distance gm n (ch, e) = Inr (c, e0) \<and> iteration distance gm e0 = Inl failure)"
proof (rule process_loop.raw_induct
    [where P = "\<lambda>distance gm stop ch e r. \<forall>failure. r = Inl failure \<longrightarrow>
       (\<exists>n c e0. run distance gm n (ch, e) = Inr (c, e0) \<and>
                 iteration distance gm e0 = Inl failure)",
     OF _ assms])
  fix loop distance gm and stop :: 'd and ch and e :: "('a, 'd) kmedians" and r
  assume IH: "\<And>distance gm stop ch e r. loop distance gm stop ch e = Some r \<Longrightarrow>
      \<forall>failure. r = Inl failure \<longrightarrow>
       (\<exists>n c e0. run distance gm n (ch, e) = Inr (c, e0) \<and>
                 iteration distance gm e0 = Inl failure)"
    and hyp: "(if exceeds ch stop
        then case iteration distance gm e of
               Inl failure \<Rightarrow> Some (Inl failure)
             | Inr (e', c) \<Rightarrow> loop distance gm stop (Finite c) e'
        else Some (Inr e)) = Some r"
  show "\<forall>failure. r = Inl failure \<longrightarrow>
       (\<exists>n c e0. run distance gm n (ch, e) = Inr (c, e0) \<and>
                 iteration distance gm e0 = Inl failure)"
  proof (intro allI impI)
    fix failure
    assume r: "r = Inl failure"
    with hyp have ex: "exceeds ch stop" by (auto split: if_splits)
    show "\<exists>n c e0. run distance gm n (ch, e) = Inr (c, e0) \<and>
                 iteration distance gm e0 = Inl failure"
    proof (cases "iteration distance gm e")
      case (Inl f)
      with hyp ex r have "iteration distance gm e = Inl failure" by simp
      moreover have "run distance gm 0 (ch, e) = Inr (ch, e)" by simp
      ultimately show ?thesis by blast
    next
      case (Inr pair)
      obtain e1 c1 where pair: "pair = (e1, c1)" by (cases pair)
      with Inr hyp ex have "loop distance gm stop (Finite c1) e1 = Some r" by simp
      from IH [OF this] r obtain n c e0 where
        n: "run distance gm n (Finite c1, e1) = Inr (c, e0)"
           "iteration distance gm e0 = Inl failure" by blast
      from Inr pair n(1) have "run distance gm (Suc n) (ch, e) = Inr (c, e0)" by simp
      with n(2) show ?thesis by blast
    qed
  qed
qed

lemma process_loop_Inl:
  assumes "process_loop distance gm stop ch e = Some (Inl (err, s))"
  shows "err \<noteq> DimensionMismatch \<and> pointer_data s = pointer_data e \<and>
     length (medians s) = length (medians e) \<and> tolerance s = tolerance e"
proof -
  from process_loop_failure [OF assms] obtain n c e0 where
    rn: "run distance gm n (ch, e) = Inr (c, e0)" and
    it: "iteration distance gm e0 = Inl (err, s)" by blast
  from run_frame [OF rn] iteration_Inl [OF it] show ?thesis by simp
qed






section \<open>Lemmas about the store model\<close>

subsection \<open>What is written where\<close>

lemma extends_refl: "extends h h"
  by (simp add: extends_def)

lemma extends_trans: "extends h1 h2 \<Longrightarrow> extends h2 h3 \<Longrightarrow> extends h1 h3"
  by (auto simp: extends_def)

lemma extends_append: "extends h (h @ objs)"
  by (simp add: extends_def nth_append)

lemma extends_update: "extends h0 h \<Longrightarrow> length h0 \<le> a \<Longrightarrow> extends h0 (h[a := obj])"
  by (auto simp: extends_def)

lemma alloc_empty_lists_eq:
  "alloc_empty_lists n h = ([length h..<length h + n], h @ replicate n [])"
proof (induction n arbitrary: h)
  case 0
  show ?case by simp
next
  case (Suc n)
  have "[length h..<length h + Suc n] = length h # [Suc (length h)..<Suc (length h) + n]"
    by (simp add: upt_rec)
  moreover have "h @ replicate (Suc n) [] = (h @ [[]]) @ replicate n []"
    by simp
  ultimately show ?case
    using Suc.IH [of "h @ [[]]"] by (simp add: alloc_def del: replicate_Suc upt_Suc)
qed

lemma list_of_empty_lists_eq:
  "list_of_empty_lists n h =
     (length h + n, h @ replicate n [] @ [map Ref [length h..<length h + n]])"
  by (simp add: list_of_empty_lists_def alloc_empty_lists_eq alloc_def)

lemma assign_points_h_frame:
  assumes "assign_points_h distance e cl idxs h = (r, h')"
    and "cl < length h"
    and "\<forall>v\<in>set (h ! cl). \<forall>a. v = Ref a \<longrightarrow> n0 \<le> a \<and> a \<noteq> cl"
  shows "length h' = length h \<and> (\<forall>a<n0. h' ! a = h ! a)"
  using assms
proof (induction idxs arbitrary: h)
  case Nil
  then show ?case by simp
next
  case (Cons index_point rest)
  show ?case
  proof (cases "h' = h")
    case True
    then show ?thesis by simp
  next
    case False
    with Cons.prems(1) obtain index_optim target h1 where
      tg: "item h cl index_optim = Inr target" and
      ap: "append_h h target (Idx index_point) = Inr h1" and
      rest: "assign_points_h distance e cl rest h1 = (r, h')"
      by (auto split: sum.splits prod.splits)
    from ap obtain a where a: "target = Ref a" "a < length h"
      "h1 = h[a := h ! a @ [Idx index_point]]"
      by (auto simp: append_h_def split: val.splits if_splits)
    from tg Cons.prems(2) have "target \<in> set (h ! cl)"
      by (auto simp: item_def load_def py_get_def dest: py_index_Inr split: sum.splits)
    with Cons.prems(3) a(1) have fresh: "n0 \<le> a" "a \<noteq> cl" by auto
    with a(3) have same: "h1 ! cl = h ! cl" "length h1 = length h" by simp_all
    from Cons.IH [OF rest] same Cons.prems(2,3) have
      "length h' = length h1 \<and> (\<forall>b<n0. h' ! b = h1 ! b)" by simp
    with a(3) fresh(1) same(2) show ?thesis by simp
  qed
qed

lemma update_clusters_h_frame:
  assumes "update_clusters_h distance e h = (r, h')"
  shows "extends h h'"
proof (cases "load h (medians_ref e)")
  case (Inl err)
  with assms have "h' = h" by (simp add: update_clusters_h_def)
  then show ?thesis by (simp add: extends_refl)
next
  case (Inr ms)
  let ?K = "length ms"
  let ?cl = "length h + ?K"
  let ?h1 = "h @ replicate ?K [] @ [map Ref [length h..<length h + ?K]]"
  have ext1: "extends h ?h1" by (rule extends_append)
  show ?thesis
  proof (cases "load ?h1 (pointer_data_ref e)")
    case (Inl err)
    with Inr assms have "h' = ?h1"
      by (simp add: update_clusters_h_def list_of_empty_lists_eq)
    with ext1 show ?thesis by simp
  next
    case data: (Inr data)
    obtain r2 h2 where
      ap: "assign_points_h distance e ?cl [0..<length data] ?h1 = (r2, h2)"
      by (cases "assign_points_h distance e ?cl [0..<length data] ?h1")
    with Inr data assms have h': "h' = h2"
      by (auto simp: update_clusters_h_def list_of_empty_lists_eq split: sum.splits)
    have cl: "?cl < length ?h1" by simp
    have at_cl: "?h1 ! ?cl = map Ref [length h..<length h + ?K]"
      by (simp add: nth_append)
    have "\<forall>v\<in>set (?h1 ! ?cl). \<forall>a. v = Ref a \<longrightarrow> length h \<le> a \<and> a \<noteq> ?cl"
      unfolding at_cl by auto
    from assign_points_h_frame [OF ap cl this] have
      "length h2 = length ?h1" "\<forall>a<length h. h2 ! a = ?h1 ! a" by simp_all
    then have "extends h h2" by (simp add: extends_def nth_append)
    with h' show ?thesis by simp
  qed
qed

lemma place_medians_h_frame:
  assumes "place_medians_h gm e ml idxs h = (r, h')"
  shows "length h' = length h \<and> (\<forall>a. a \<noteq> ml \<longrightarrow> h' ! a = h ! a)"
  using assms
proof (induction idxs arbitrary: h)
  case Nil
  then show ?case by simp
next
  case (Cons index rest)
  show ?case
  proof (cases "h' = h")
    case True
    then show ?thesis by simp
  next
    case False
    with Cons.prems obtain pv h1 where
      st: "store_item h ml (int index) pv = Inr h1" and
      rest: "place_medians_h gm e ml rest h1 = (r, h')"
      by (auto split: sum.splits option.splits)
    from st have "length h1 = length h \<and> (\<forall>a. a \<noteq> ml \<longrightarrow> h1 ! a = h ! a)"
      by (auto simp: store_item_def split: sum.splits)
    with Cons.IH [OF rest] show ?thesis by simp
  qed
qed

lemma update_medians_h_frame:
  assumes "update_medians_h gm e h = (r, h')"
  shows "extends h h'"
proof (cases "load h (clusters_ref e)")
  case (Inl err)
  with assms have "h' = h" by (simp add: update_medians_h_def)
  then show ?thesis by (simp add: extends_refl)
next
  case (Inr cs)
  let ?K = "length cs"
  let ?ml = "length h + ?K"
  let ?h1 = "h @ replicate ?K [] @ [map Ref [length h..<length h + ?K]]"
  obtain r2 h2 where
    pl: "place_medians_h gm e ?ml [0..<?K] ?h1 = (r2, h2)"
    by (cases "place_medians_h gm e ?ml [0..<?K] ?h1")
  with Inr assms have h': "h' = h2"
    by (auto simp: update_medians_h_def list_of_empty_lists_eq split: sum.splits)
  from place_medians_h_frame [OF pl] have
    "length h2 = length ?h1" "\<forall>a<length h. h2 ! a = ?h1 ! a" by simp_all
  then have "extends h h2" by (simp add: extends_def nth_append)
  with h' show ?thesis by simp
qed

lemma iteration_h_frame:
  assumes "iteration_h distance gm e h = (r, e', h')"
  shows "extends h h' \<and> pointer_data_ref e' = pointer_data_ref e \<and>
     tolerance_val e' = tolerance_val e"
proof -
  obtain r1 h1 where uc: "update_clusters_h distance e h = (r1, h1)"
    by (cases "update_clusters_h distance e h")
  note ext1 = update_clusters_h_frame [OF uc]
  show ?thesis
  proof (cases r1)
    case (Inl err)
    with uc assms have "e' = e" "h' = h1" by (simp_all add: iteration_h_def)
    with ext1 show ?thesis by simp
  next
    case (Inr cl)
    let ?e1 = "e\<lparr>clusters_ref := cl\<rparr>"
    obtain r2 h2 where um: "update_medians_h gm ?e1 h1 = (r2, h2)"
      by (cases "update_medians_h gm ?e1 h1")
    from extends_trans [OF ext1 update_medians_h_frame [OF um]] have ext2: "extends h h2" .
    from Inr uc um assms have "h' = h2"
      and "e' = ?e1 \<or> (\<exists>updated. e' = ?e1\<lparr>medians_ref := updated\<rparr>)"
      by (auto simp: iteration_h_def Let_def split: sum.splits)
    with ext2 show ?thesis by auto
  qed
qed

lemma process_loop_h_frame:
  fixes stop :: "'d::linordered_idom" and h :: "'a store"
  assumes "process_loop_h distance gm stop ch e h = Some out"
  shows "extends h (snd (snd out)) \<and>
     pointer_data_ref (fst (snd out)) = pointer_data_ref e \<and>
     tolerance_val (fst (snd out)) = tolerance_val e"
proof (rule process_loop_h.raw_induct
    [where P = "\<lambda>distance gm stop ch e h out. extends h (snd (snd out)) \<and>
       pointer_data_ref (fst (snd out)) = pointer_data_ref e \<and>
       tolerance_val (fst (snd out)) = tolerance_val e",
     OF _ assms])
  fix loop distance gm and stop :: 'd and ch e and h :: "'a store" and out
  assume IH: "\<And>distance gm stop ch e h out. loop distance gm stop ch e h = Some out \<Longrightarrow>
      extends h (snd (snd out)) \<and>
      pointer_data_ref (fst (snd out)) = pointer_data_ref e \<and>
      tolerance_val (fst (snd out)) = tolerance_val e"
    and hyp: "(if exceeds ch stop
        then case iteration_h distance gm e h of
               (Inl err, e1, h1) \<Rightarrow> Some (Inl err, e1, h1)
             | (Inr c, e1, h1) \<Rightarrow> loop distance gm stop (Finite c) e1 h1
        else Some (Inr (), e, h)) = Some out"
  show "extends h (snd (snd out)) \<and>
      pointer_data_ref (fst (snd out)) = pointer_data_ref e \<and>
      tolerance_val (fst (snd out)) = tolerance_val e"
  proof (cases "exceeds ch stop")
    case False
    with hyp have "out = (Inr (), e, h)" by simp
    then show ?thesis by (simp add: extends_refl)
  next
    case True
    obtain r e1 h1 where it: "iteration_h distance gm e h = (r, e1, h1)"
      by (cases "iteration_h distance gm e h")
    note fr = iteration_h_frame [OF it]
    show ?thesis
    proof (cases r)
      case (Inl err)
      with True hyp it have "out = (Inl err, e1, h1)" by simp
      with fr show ?thesis by simp
    next
      case (Inr c)
      with True hyp it have "loop distance gm stop (Finite c) e1 h1 = Some out" by simp
      from IH [OF this] fr show ?thesis by (auto intro: extends_trans)
    qed
  qed
qed

lemma process_h_frame:
  assumes "process_h distance gm e h = Some (r, e', h')"
  shows "extends h h' \<and> pointer_data_ref e' = pointer_data_ref e \<and>
     tolerance_val e' = tolerance_val e"
proof (cases "process_h distance gm e h =
    process_loop_h distance gm (tolerance_val e * tolerance_val e) Infinity e h")
  case True
  with assms process_loop_h_frame [of distance gm "tolerance_val e * tolerance_val e"
      Infinity e h "(r, e', h')"]
  show ?thesis by simp
next
  case False
  then have "\<exists>err. process_h distance gm e h = Some (Inl err, e, h)"
    by (auto simp: process_h_def Let_def split: sum.splits if_splits)
  with assms show ?thesis by (auto simp: extends_refl)
qed

lemma kmedians_init_h_frame:
  assumes "kmedians_init_h data initial_centers tol h = (r, h')"
  shows "extends h h'"
    and "r = Inr e \<Longrightarrow> initial_centers < length h \<Longrightarrow>
      pointer_data_ref e = data \<and> tolerance_val e = tol \<and>
      clusters_ref e = length h \<and> medians_ref e = Suc (length h) \<and>
      length h' = length h + 2 \<and>
      h' ! clusters_ref e = [] \<and> h' ! medians_ref e = h ! initial_centers"
proof -
  have "\<exists>objs. h' = h @ objs"
    using assms
    by (auto simp: kmedians_init_h_def alloc_def load_def split: if_splits)
  then show "extends h h'" using extends_append by blast
  show "pointer_data_ref e = data \<and> tolerance_val e = tol \<and>
      clusters_ref e = length h \<and> medians_ref e = Suc (length h) \<and>
      length h' = length h + 2 \<and>
      h' ! clusters_ref e = [] \<and> h' ! medians_ref e = h ! initial_centers"
    if "r = Inr e" "initial_centers < length h"
    using assms that
    by (auto simp: kmedians_init_h_def alloc_def load_def nth_append split: if_splits)
qed

subsection \<open>The store model computes what the value model computes\<close>

lemma coordinates_length: "coordinates vs = Inr xs \<Longrightarrow> length xs = length vs"
  by (induction vs arbitrary: xs rule: coordinates.induct) (auto split: sum.splits)

lemma index_values_map: "index_values (map Idx js) = Inr js"
  by (induction js) simp_all

lemma index_values_Inr: "index_values vs = Inr js \<Longrightarrow> vs = map Idx js"
  by (induction vs arbitrary: js rule: index_values.induct) (auto split: sum.splits)

lemma points_of_Inr:
  "points_of h vs = Inr ps \<Longrightarrow>
   length ps = length vs \<and> (\<forall>i<length vs. point_of h (vs ! i) = Inr (ps ! i))"
proof (induction vs arbitrary: ps)
  case Nil
  then show ?case by simp
next
  case (Cons v vs)
  from Cons.prems obtain p ps' where
    "point_of h v = Inr p" "points_of h vs = Inr ps'" "ps = p # ps'"
    by (auto split: sum.splits)
  with Cons.IH [of ps'] show ?case by (auto simp: nth_Cons split: nat.splits)
qed

lemma points_of_eqI:
  "length ps = length vs \<Longrightarrow> (\<And>i. i < length vs \<Longrightarrow> point_of h (vs ! i) = Inr (ps ! i)) \<Longrightarrow>
   points_of h vs = Inr ps"
proof (induction vs arbitrary: ps)
  case Nil
  then show ?case by simp
next
  case (Cons v vs)
  from Cons.prems(1) obtain p ps' where ps: "ps = p # ps'" by (cases ps) auto
  from Cons.prems(2) [of 0] ps have "point_of h v = Inr p" by simp
  moreover have "points_of h vs = Inr ps'"
  proof (rule Cons.IH)
    show "length ps' = length vs" using Cons.prems(1) ps by simp
    show "point_of h (vs ! i) = Inr (ps' ! i)" if "i < length vs" for i
      using Cons.prems(2) [of "Suc i"] that ps by simp
  qed
  ultimately show ?case using ps by simp
qed

lemma index_lists_of_Inr:
  "index_lists_of h vs = Inr cs \<Longrightarrow>
   length cs = length vs \<and> (\<forall>i<length vs. indices_of h (vs ! i) = Inr (cs ! i))"
proof (induction vs arbitrary: cs)
  case Nil
  then show ?case by simp
next
  case (Cons v vs)
  from Cons.prems obtain c cs' where
    "indices_of h v = Inr c" "index_lists_of h vs = Inr cs'" "cs = c # cs'"
    by (auto split: sum.splits)
  with Cons.IH [of cs'] show ?case by (auto simp: nth_Cons split: nat.splits)
qed

lemma index_lists_of_eqI:
  "length cs = length vs \<Longrightarrow>
   (\<And>i. i < length vs \<Longrightarrow> indices_of h (vs ! i) = Inr (cs ! i)) \<Longrightarrow>
   index_lists_of h vs = Inr cs"
proof (induction vs arbitrary: cs)
  case Nil
  then show ?case by simp
next
  case (Cons v vs)
  from Cons.prems(1) obtain c cs' where cs: "cs = c # cs'" by (cases cs) auto
  from Cons.prems(2) [of 0] cs have "indices_of h v = Inr c" by simp
  moreover have "index_lists_of h vs = Inr cs'"
  proof (rule Cons.IH)
    show "length cs' = length vs" using Cons.prems(1) cs by simp
    show "indices_of h (vs ! i) = Inr (cs' ! i)" if "i < length vs" for i
      using Cons.prems(2) [of "Suc i"] that cs by simp
  qed
  ultimately show ?case using cs by simp
qed

text \<open>A read that succeeds touches existing objects only, and gives the same
  value in every store that has these objects unchanged.\<close>

lemma point_of_stable:
  assumes "point_of h v = Inr p" and "\<forall>a<length h. a \<noteq> w \<longrightarrow> a < length h' \<and> h' ! a = h ! a"
    and "v \<noteq> Ref w"
  shows "point_of h' v = Inr p"
  using assms by (auto simp: point_of_def load_def split: val.splits if_splits)

lemma indices_of_stable:
  assumes "indices_of h v = Inr c" and "\<forall>a<length h. a \<noteq> w \<longrightarrow> a < length h' \<and> h' ! a = h ! a"
    and "v \<noteq> Ref w"
  shows "indices_of h' v = Inr c"
  using assms by (auto simp: indices_of_def load_def split: val.splits if_splits)

lemma point_of_extends: "extends h h' \<Longrightarrow> point_of h v = Inr p \<Longrightarrow> point_of h' v = Inr p"
  by (auto simp: extends_def point_of_def load_def split: val.splits if_splits)

lemma indices_of_extends:
  "extends h h' \<Longrightarrow> indices_of h v = Inr c \<Longrightarrow> indices_of h' v = Inr c"
  by (auto simp: extends_def indices_of_def load_def split: val.splits if_splits)

lemma load_extends: "extends h h' \<Longrightarrow> load h a = Inr vs \<Longrightarrow> load h' a = Inr vs"
  by (auto simp: extends_def load_def split: if_splits)

lemma dataset_of_extends:
  assumes "extends h h'" and "dataset_of h a = Inr D"
  shows "dataset_of h' a = Inr D"
proof -
  from assms(2) obtain vs where vs: "load h a = Inr vs" "points_of h vs = Inr D"
    by (auto simp: dataset_of_def split: sum.splits)
  from points_of_Inr [OF vs(2)] point_of_extends [OF assms(1)]
  have "points_of h' vs = Inr D" by (intro points_of_eqI) auto
  with load_extends [OF assms(1) vs(1)] show ?thesis by (simp add: dataset_of_def)
qed

lemma clusters_of_extends:
  assumes "extends h h'" and "clusters_of h a = Inr cs"
  shows "clusters_of h' a = Inr cs"
proof -
  from assms(2) obtain vs where vs: "load h a = Inr vs" "index_lists_of h vs = Inr cs"
    by (auto simp: clusters_of_def split: sum.splits)
  from index_lists_of_Inr [OF vs(2)] indices_of_extends [OF assms(1)]
  have "index_lists_of h' vs = Inr cs" by (intro index_lists_of_eqI) auto
  with load_extends [OF assms(1) vs(1)] show ?thesis by (simp add: clusters_of_def)
qed

lemma dataset_of_point_item:
  assumes "dataset_of h a = Inr D"
  shows "\<exists>vs. load h a = Inr vs \<and> length vs = length D \<and>
     (\<forall>i<length D. point_of h (vs ! i) = Inr (D ! i) \<and> point_item h a i = Inr (D ! i))"
proof -
  from assms obtain vs where vs: "load h a = Inr vs" "points_of h vs = Inr D"
    by (auto simp: dataset_of_def split: sum.splits)
  from points_of_Inr [OF vs(2)] have
    len: "length D = length vs" and each: "\<forall>i<length vs. point_of h (vs ! i) = Inr (D ! i)"
    by simp_all
  have "point_item h a i = Inr (D ! i)" if "i < length D" for i
    using that vs(1) len each by (simp add: point_item_def item_def py_get_nat)
  with vs(1) len each show ?thesis by auto
qed

lemma scan_medians_h_eq:
  assumes "\<forall>k\<in>set idxs. point_item h (medians_ref eh) k = Inr (M ! k)"
    and "point_item h (pointer_data_ref eh) ip = Inr p"
  shows "scan_medians_h distance h eh ip idxs acc = scan_medians distance p M idxs acc"
  using assms(1)
proof (induction idxs arbitrary: acc)
  case Nil
  show ?case by simp
next
  case (Cons k idxs)
  obtain io dopt where acc: "acc = (io, dopt)" by (cases acc)
  from Cons.prems have k: "point_item h (medians_ref eh) k = Inr (M ! k)"
    and rest: "\<forall>k\<in>set idxs. point_item h (medians_ref eh) k = Inr (M ! k)" by simp_all
  show ?case
    unfolding acc using k assms(2) Cons.IH [OF rest]
    by (simp split: option.splits)
qed

lemma assign_points_h_simulates:
  assumes "assign_points_h distance eh cl idxs h = (Inr u, h')"
    and "extends h0 h" and "length h0 = n0"
    and "dataset_of h0 (pointer_data_ref eh) = Inr D"
    and "dataset_of h0 (medians_ref eh) = Inr M"
    and "holds_clusters h n0 cl cs" and "length cs = length M"
    and "\<forall>i\<in>set idxs. i < length D"
  shows "\<exists>cs'. assign_points distance D M idxs cs = Inr cs' \<and>
     holds_clusters h' n0 cl cs' \<and> length cs' = length M \<and> extends h0 h'"
  using assms(1,2,6,7,8)
proof (induction idxs arbitrary: h cs)
  case Nil
  then show ?case by auto
next
  case (Cons ip rest)
  note ext = Cons.prems(2) and hc = Cons.prems(3) and len = Cons.prems(4)
  from Cons.prems(5) have ip: "ip < length D" by simp
  from dataset_of_point_item [OF dataset_of_extends [OF ext assms(4)]] ip have
    p: "point_item h (pointer_data_ref eh) ip = Inr (D ! ip)" by blast
  from dataset_of_point_item [OF dataset_of_extends [OF ext assms(5)]] obtain mvs where
    mvs: "load h (medians_ref eh) = Inr mvs" "length mvs = length M" and
    m: "\<forall>k<length M. point_item h (medians_ref eh) k = Inr (M ! k)" by blast
  have scan: "scan_medians_h distance h eh ip [0..<length mvs] (- 1, 0) =
      nearest distance (D ! ip) M"
    unfolding nearest_def mvs(2)
    by (rule scan_medians_h_eq) (use m p in simp_all)
  from Cons.prems(1) mvs(1) scan obtain io d target h1 where
    near: "nearest distance (D ! ip) M = Inr (io, d)" and
    tg: "item h cl io = Inr target" and
    ap: "append_h h target (Idx ip) = Inr h1" and
    rest: "assign_points_h distance eh cl rest h1 = (Inr u, h')"
    by (auto split: sum.splits prod.splits)
  from hc have cl: "cl < length h" "h ! cl = map Ref [n0..<n0 + length cs]"
    and inner: "\<And>k. k < length cs \<Longrightarrow> h ! (n0 + k) = map Idx (cs ! k)"
    and cl_eq: "cl = n0 + length cs" "length h = Suc cl"
    unfolding holds_clusters_def by auto
  from tg cl obtain k where
    k: "py_index cs io = Inr k" "k < length cs" "target = Ref (n0 + k)"
    by (auto simp: item_def load_def py_get_def py_index_def split: sum.splits if_splits)
  with ap cl_eq have h1: "h1 = h[n0 + k := h ! (n0 + k) @ [Idx ip]]"
    by (simp add: append_h_def)
  let ?cs1 = "cs[k := cs ! k @ [ip]]"
  from k(1) have app: "cluster_append cs io ip = Inr ?cs1"
    by (simp add: cluster_append_def)
  have hc1: "holds_clusters h1 n0 cl ?cs1"
    unfolding holds_clusters_def h1 using cl cl_eq k(2) inner
    by (auto simp: nth_list_update)
  have ext1: "extends h0 h1"
    unfolding h1 using ext assms(3) by (intro extends_update) simp_all
  from Cons.IH [OF rest ext1 hc1] len Cons.prems(5) obtain cs' where
    "assign_points distance D M rest ?cs1 = Inr cs'" "holds_clusters h' n0 cl cs'"
    "length cs' = length M" "extends h0 h'"
    by auto
  with near app show ?case by auto
qed

lemma holds_clusters_read:
  assumes "holds_clusters h n0 cl cs"
  shows "clusters_of h cl = Inr cs"
proof -
  from assms have cl: "cl < length h" "h ! cl = map Ref [n0..<n0 + length cs]"
    and inner: "\<And>k. k < length cs \<Longrightarrow> h ! (n0 + k) = map Idx (cs ! k)"
    and cl_eq: "cl = n0 + length cs"
    unfolding holds_clusters_def by auto
  have "index_lists_of h (map Ref [n0..<n0 + length cs]) = Inr cs"
  proof (rule index_lists_of_eqI)
    show "length cs = length (map Ref [n0..<n0 + length cs])" by simp
    fix i assume "i < length (map Ref [n0..<n0 + length cs])"
    then have i: "i < length cs" by simp
    with inner [OF i] cl cl_eq show
      "indices_of h (map Ref [n0..<n0 + length cs] ! i) = Inr (cs ! i)"
      by (simp add: indices_of_def load_def index_values_map)
  qed
  with cl show ?thesis by (simp add: clusters_of_def load_def)
qed

lemma update_clusters_h_simulates:
  assumes "update_clusters_h distance eh h = (Inr cl, h')"
    and "dataset_of h (pointer_data_ref eh) = Inr (pointer_data e)"
    and "dataset_of h (medians_ref eh) = Inr (medians e)"
  shows "\<exists>cs. update_clusters distance e = Inr cs \<and> clusters_of h' cl = Inr cs \<and>
     extends h h'"
proof -
  let ?D = "pointer_data e" and ?M = "medians e"
  from dataset_of_point_item [OF assms(3)] obtain mvs where
    mvs: "load h (medians_ref eh) = Inr mvs" "length mvs = length ?M" by blast
  let ?K = "length ?M"
  let ?h1 = "h @ replicate ?K [] @ [map Ref [length h..<length h + ?K]]"
  have ext1: "extends h ?h1" by (rule extends_append)
  from dataset_of_point_item [OF dataset_of_extends [OF ext1 assms(2)]] obtain dvs where
    dvs: "load ?h1 (pointer_data_ref eh) = Inr dvs" "length dvs = length ?D" by blast
  from assms(1) mvs dvs obtain u where
    ap: "assign_points_h distance eh (length h + ?K) [0..<length ?D] ?h1 = (Inr u, h')"
    and cl: "cl = length h + ?K"
    by (auto simp: update_clusters_h_def list_of_empty_lists_eq split: sum.splits prod.splits)
  have hc: "holds_clusters ?h1 (length h) (length h + ?K) (replicate ?K [])"
    by (auto simp: holds_clusters_def nth_append)
  from assign_points_h_simulates [OF ap ext1 refl assms(2,3) hc]
  obtain cs where "assign_points distance ?D ?M [0..<length ?D] (replicate ?K []) = Inr cs"
    "holds_clusters h' (length h) (length h + ?K) cs" "extends h h'"
    by auto
  with cl holds_clusters_read show ?thesis
    by (auto simp: update_clusters_def)
qed

lemma clusters_of_items:
  assumes "clusters_of h a = Inr C"
  shows "\<exists>cvs. load h a = Inr cvs \<and> length cvs = length C \<and>
     (\<forall>i<length C. indices_of h (cvs ! i) = Inr (C ! i))"
proof -
  from assms obtain cvs where cvs: "load h a = Inr cvs" "index_lists_of h cvs = Inr C"
    by (auto simp: clusters_of_def split: sum.splits)
  from index_lists_of_Inr [OF cvs(2)] cvs(1) show ?thesis by auto
qed

lemma point_of_is_ref: "point_of h v = Inr p \<Longrightarrow> \<exists>a. v = Ref a \<and> a < length h"
  by (auto simp: point_of_def load_def split: val.splits if_splits)

lemma place_medians_h_simulates:
  assumes "place_medians_h gm eh ml idxs h = (Inr u, h')"
    and "extends h0 h" and "length h0 \<le> ml" and "ml < length h"
    and "dataset_of h0 (pointer_data_ref eh) = Inr D"
    and "clusters_of h0 (clusters_ref eh) = Inr C"
    and "points_of h (h ! ml) = Inr ms" and "\<forall>v\<in>set (h ! ml). v \<noteq> Ref ml"
    and "\<forall>i\<in>set idxs. i < length C"
  shows "\<exists>ms'. place_medians gm D C idxs ms = Inr ms' \<and>
     points_of h' (h' ! ml) = Inr ms' \<and> extends h0 h' \<and> ml < length h'"
  using assms(1,2,4,7,8,9)
proof (induction idxs arbitrary: h ms)
  case Nil
  then show ?case by auto
next
  case (Cons index rest)
  note ext = Cons.prems(2) and ml = Cons.prems(3) and ms = Cons.prems(4)
    and noself = Cons.prems(5)
  from Cons.prems(6) have index: "index < length C" by simp
  from dataset_of_extends [OF ext assms(5)] have dsh: "dataset_of h (pointer_data_ref eh) = Inr D" .
  then obtain dvs where
    dvs: "load h (pointer_data_ref eh) = Inr dvs" "points_of h dvs = Inr D"
    by (auto simp: dataset_of_def split: sum.splits)
  from points_of_Inr [OF dvs(2)] have
    dlen: "length D = length dvs" and
    dpt: "\<And>i. i < length dvs \<Longrightarrow> point_of h (dvs ! i) = Inr (D ! i)" by simp_all
  from clusters_of_items [OF clusters_of_extends [OF ext assms(6)]] index obtain cvs where
    cvs: "load h (clusters_ref eh) = Inr cvs" "length cvs = length C"
      "indices_of h (cvs ! index) = Inr (C ! index)" by blast
  from cvs(1,2) index have cv: "item h (clusters_ref eh) (int index) = Inr (cvs ! index)"
    by (simp add: item_def py_get_nat)
  from Cons.prems(1) dvs cv cvs(3) obtain mi pv h1 where
    gm: "gm D (C ! index) = Some mi" and
    pv: "item h (pointer_data_ref eh) (int mi) = Inr pv" and
    st: "store_item h ml (int index) pv = Inr h1" and
    rest: "place_medians_h gm eh ml rest h1 = (Inr u, h')"
    by (auto split: sum.splits option.splits)
  from pv dvs(1) have mi: "mi < length dvs" "pv = dvs ! mi"
    by (auto simp: item_def py_get_nat split: if_splits)
  with dlen have pure_get: "py_get D (int mi) = Inr (D ! mi)" by (simp add: py_get_nat)
  from st ml have idx: "index < length (h ! ml)" and h1: "h1 = h[ml := (h ! ml)[index := pv]]"
    by (auto simp: store_item_def load_def py_index_nat split: if_splits)
  from dpt [OF mi(1)] mi(2) have pvp: "point_of h pv = Inr (D ! mi)" by simp
  from point_of_is_ref [OF pvp] obtain a where a: "pv = Ref a" "a < length h" by blast
  have pv_old: "point_of h0 pv = Inr (D ! mi)"
  proof -
    from assms(5) obtain dvs0 where
      d0: "load h0 (pointer_data_ref eh) = Inr dvs0" "points_of h0 dvs0 = Inr D"
      by (auto simp: dataset_of_def split: sum.splits)
    from load_extends [OF ext d0(1)] dvs(1) have "dvs0 = dvs" by simp
    with points_of_Inr [OF d0(2)] mi show ?thesis by simp
  qed
  from point_of_is_ref [OF pv_old] a(1) assms(3) have a_ml: "a \<noteq> ml" by auto
  have ext1: "extends h0 h1" unfolding h1 using ext assms(3) by (rule extends_update)
  have ml1: "ml < length h1" using ml h1 by simp
  have at_ml: "h1 ! ml = (h ! ml)[index := pv]" using ml h1 by simp
  have noself1: "\<forall>v\<in>set (h1 ! ml). v \<noteq> Ref ml"
    unfolding at_ml using noself a(1) a_ml by (auto dest: set_update_subset_insert [THEN subsetD])
  have other: "\<forall>b<length h. b \<noteq> ml \<longrightarrow> b < length h1 \<and> h1 ! b = h ! b"
    unfolding h1 by simp
  from points_of_Inr [OF ms] have
    mlen: "length ms = length (h ! ml)" and
    mpt: "\<And>i. i < length (h ! ml) \<Longrightarrow> point_of h ((h ! ml) ! i) = Inr (ms ! i)" by simp_all
  have ms1: "points_of h1 (h1 ! ml) = Inr (ms[index := D ! mi])"
  proof (rule points_of_eqI)
    show "length (ms[index := D ! mi]) = length (h1 ! ml)" using mlen at_ml by simp
    fix i assume "i < length (h1 ! ml)"
    then have i: "i < length (h ! ml)" using at_ml by simp
    show "point_of h1 (h1 ! ml ! i) = Inr (ms[index := D ! mi] ! i)"
    proof (cases "i = index")
      case True
      with i mlen at_ml point_of_extends [OF ext1 pv_old] show ?thesis by simp
    next
      case False
      from i noself have "(h ! ml) ! i \<noteq> Ref ml" by simp
      from point_of_stable [OF mpt [OF i] other this] False i mlen at_ml
      show ?thesis by simp
    qed
  qed
  from Cons.IH [OF rest ext1 ml1 ms1 noself1] Cons.prems(6) obtain ms' where
    "place_medians gm D C rest (ms[index := D ! mi]) = Inr ms'"
    "points_of h' (h' ! ml) = Inr ms'" "extends h0 h'" "ml < length h'"
    by auto
  with gm pure_get show ?case by auto
qed

lemma update_medians_h_simulates:
  assumes "update_medians_h gm eh h = (Inr ml, h')"
    and "dataset_of h (pointer_data_ref eh) = Inr (pointer_data e)"
    and "clusters_of h (clusters_ref eh) = Inr (clusters e)"
  shows "\<exists>uc. update_medians gm e = Inr uc \<and> dataset_of h' ml = Inr uc \<and> extends h h'"
proof -
  let ?C = "clusters e"
  let ?K = "length ?C"
  from clusters_of_items [OF assms(3)] obtain cvs where
    cvs: "load h (clusters_ref eh) = Inr cvs" "length cvs = ?K" by blast
  let ?ml = "length h + ?K"
  let ?h1 = "h @ replicate ?K [] @ [map Ref [length h..<length h + ?K]]"
  from assms(1) cvs obtain u where
    pl: "place_medians_h gm eh ?ml [0..<?K] ?h1 = (Inr u, h')" and ml: "ml = ?ml"
    by (auto simp: update_medians_h_def list_of_empty_lists_eq split: sum.splits prod.splits)
  have ext1: "extends h ?h1" by (rule extends_append)
  have at_ml: "?h1 ! ?ml = map Ref [length h..<length h + ?K]" by (simp add: nth_append)
  have init: "points_of ?h1 (?h1 ! ?ml) = Inr (replicate ?K [])"
    unfolding at_ml
    by (rule points_of_eqI) (auto simp: point_of_def load_def nth_append)
  have noself: "\<forall>v\<in>set (?h1 ! ?ml). v \<noteq> Ref ?ml" unfolding at_ml by auto
  from place_medians_h_simulates [OF pl ext1 _ _ assms(2,3) init noself]
  obtain uc where "place_medians gm (pointer_data e) ?C [0..<?K] (replicate ?K []) = Inr uc"
    "points_of h' (h' ! ?ml) = Inr uc" "extends h h'" "?ml < length h'"
    by auto
  with ml show ?thesis
    by (auto simp: update_medians_def dataset_of_def load_def)
qed

lemma displacements_h_simulates:
  assumes "displacements_h distance h eh upd idxs = Inr ds"
    and "dataset_of h (medians_ref eh) = Inr M" and "dataset_of h upd = Inr U"
    and "\<forall>i\<in>set idxs. i < length M"
  shows "displacements distance M U idxs = Inr ds"
  using assms(1,4)
proof (induction idxs arbitrary: ds)
  case Nil
  then show ?case by simp
next
  case (Cons index rest)
  from Cons.prems(2) have index: "index < length M" by simp
  from dataset_of_point_item [OF assms(2)] index have
    old: "point_item h (medians_ref eh) index = Inr (M ! index)" by blast
  from dataset_of_point_item [OF assms(3)] obtain uvs where
    uvs: "load h upd = Inr uvs" "length uvs = length U" and
    upt: "\<forall>i<length U. point_item h upd i = Inr (U ! i)" by blast
  from Cons.prems(1) old obtain new d ds' where
    new: "point_item h upd index = Inr new" and d: "distance (M ! index) new = Some d" and
    rest: "displacements_h distance h eh upd rest = Inr ds'" and ds: "ds = d # ds'"
    by (auto split: sum.splits option.splits)
  from new uvs have "index < length U"
    by (auto simp: point_item_def item_def py_get_nat split: sum.splits if_splits)
  with upt new have "new = U ! index" "py_get U (int index) = Inr (U ! index)"
    by (simp_all add: py_get_nat)
  with d ds Cons.IH [OF rest] Cons.prems(2) show ?case by simp
qed

lemma iteration_h_simulates:
  assumes "iteration_h distance gm eh h = (Inr c, eh', h')" and "represents h eh e"
  shows "\<exists>e'. iteration distance gm e = Inr (e', c) \<and> represents h' eh' e' \<and> extends h h'"
proof -
  from assms(2) have
    rd: "dataset_of h (pointer_data_ref eh) = Inr (pointer_data e)" and
    rm: "dataset_of h (medians_ref eh) = Inr (medians e)" and
    tol: "tolerance_val eh = tolerance e"
    unfolding represents_def by simp_all
  from assms(1) obtain cl h1 where uch: "update_clusters_h distance eh h = (Inr cl, h1)"
    by (auto simp: iteration_h_def split: prod.splits sum.splits)
  from update_clusters_h_simulates [OF uch rd rm] obtain cs where
    cs: "update_clusters distance e = Inr cs" "clusters_of h1 cl = Inr cs" and
    ext1: "extends h h1" by blast
  let ?eh1 = "eh\<lparr>clusters_ref := cl\<rparr>" and ?e1 = "e\<lparr>clusters := cs\<rparr>"
  from assms(1) uch obtain ml h2 where umh: "update_medians_h gm ?eh1 h1 = (Inr ml, h2)"
    by (auto simp: iteration_h_def Let_def split: prod.splits sum.splits)
  have rd1: "dataset_of h1 (pointer_data_ref ?eh1) = Inr (pointer_data ?e1)"
    using dataset_of_extends [OF ext1 rd] by simp
  have rc1: "clusters_of h1 (clusters_ref ?eh1) = Inr (clusters ?e1)"
    using cs(2) by simp
  from update_medians_h_simulates [OF umh rd1 rc1] obtain uc where
    uc: "update_medians gm ?e1 = Inr uc" "dataset_of h2 ml = Inr uc" and
    ext2: "extends h1 h2" by blast
  have rm2: "dataset_of h2 (medians_ref ?eh1) = Inr (medians e)"
    using dataset_of_extends [OF ext2 dataset_of_extends [OF ext1 rm]] by simp
  from dataset_of_point_item [OF rm2] obtain mvs where
    mvs: "load h2 (medians_ref ?eh1) = Inr mvs" "length mvs = length (medians e)" by blast
  from assms(1) uch umh mvs obtain ds where
    dsh: "displacements_h distance h2 ?eh1 ml [0..<length (medians e)] = Inr ds" and
    mx: "py_max ds = Inr c" and
    eh': "eh' = ?eh1\<lparr>medians_ref := ml\<rparr>" and h': "h' = h2"
    by (auto simp: iteration_h_def Let_def split: prod.splits sum.splits)
  from displacements_h_simulates [OF dsh rm2 uc(2)] have
    ds: "displacements distance (medians e) uc [0..<length (medians e)] = Inr ds" by simp
  let ?e' = "?e1\<lparr>medians := uc\<rparr>"
  from cs(1) uc(1) ds mx have "iteration distance gm e = Inr (?e', c)"
    by (simp add: iteration_def)
  moreover from extends_trans [OF ext1 ext2] h' have ext: "extends h h'" by simp
  moreover have "represents h' eh' ?e'"
    unfolding represents_def eh' h'
    using dataset_of_extends [OF ext2 rd1] clusters_of_extends [OF ext2 rc1] uc(2) tol
    by simp
  ultimately show ?thesis by blast
qed

lemma process_loop_h_simulates:
  fixes stop :: "'d::linordered_idom" and h :: "'a store"
  assumes "process_loop_h distance gm stop ch eh h = Some out"
  shows "\<forall>e eh' h'. represents h eh e \<and> out = (Inr (), eh', h') \<longrightarrow>
     (\<exists>e'. process_loop distance gm stop ch e = Some (Inr e') \<and> represents h' eh' e')"
proof (rule process_loop_h.raw_induct
    [where P = "\<lambda>distance gm stop ch eh h out.
       \<forall>e eh' h'. represents h eh e \<and> out = (Inr (), eh', h') \<longrightarrow>
         (\<exists>e'. process_loop distance gm stop ch e = Some (Inr e') \<and> represents h' eh' e')",
     OF _ assms])
  fix loop distance gm and stop :: 'd and ch eh and h :: "'a store" and out
  assume IH: "\<And>distance gm stop ch eh h out. loop distance gm stop ch eh h = Some out \<Longrightarrow>
      \<forall>e eh' h'. represents h eh e \<and> out = (Inr (), eh', h') \<longrightarrow>
        (\<exists>e'. process_loop distance gm stop ch e = Some (Inr e') \<and> represents h' eh' e')"
    and hyp: "(if exceeds ch stop
        then case iteration_h distance gm eh h of
               (Inl err, e1, h1) \<Rightarrow> Some (Inl err, e1, h1)
             | (Inr c, e1, h1) \<Rightarrow> loop distance gm stop (Finite c) e1 h1
        else Some (Inr (), eh, h)) = Some out"
  show "\<forall>e eh' h'. represents h eh e \<and> out = (Inr (), eh', h') \<longrightarrow>
      (\<exists>e'. process_loop distance gm stop ch e = Some (Inr e') \<and> represents h' eh' e')"
  proof (intro allI impI)
    fix e :: "('a, 'd) kmedians" and eh' and h' :: "'a store"
    assume a: "represents h eh e \<and> out = (Inr (), eh', h')"
    show "\<exists>e'. process_loop distance gm stop ch e = Some (Inr e') \<and> represents h' eh' e'"
    proof (cases "exceeds ch stop")
      case False
      with hyp a have "eh' = eh" "h' = h" by simp_all
      moreover from False have "process_loop distance gm stop ch e = Some (Inr e)"
        by (subst process_loop.simps) simp
      ultimately show ?thesis using a by blast
    next
      case True
      obtain r eh1 h1 where it: "iteration_h distance gm eh h = (r, eh1, h1)"
        by (cases "iteration_h distance gm eh h")
      show ?thesis
      proof (cases r)
        case (Inl err)
        with True hyp it a show ?thesis by simp
      next
        case (Inr c)
        with True hyp it have rest: "loop distance gm stop (Finite c) eh1 h1 = Some out"
          by simp
        from iteration_h_simulates [of distance gm eh h c eh1 h1 e] it Inr a obtain e1 where
          e1: "iteration distance gm e = Inr (e1, c)" "represents h1 eh1 e1" by auto
        from IH [OF rest] e1(2) a obtain e' where
          e': "process_loop distance gm stop (Finite c) e1 = Some (Inr e')"
            "represents h' eh' e'" by blast
        from True e1(1) e'(1) have "process_loop distance gm stop ch e = Some (Inr e')"
          by (subst process_loop.simps) simp
        with e'(2) show ?thesis by blast
      qed
    qed
  qed
qed

lemma process_h_simulates:
  assumes "process_h distance gm eh h = Some (Inr (), eh', h')" and "represents h eh e"
  shows "\<exists>e'. process distance gm e = Some (Inr e') \<and> represents h' eh' e'"
proof -
  from assms(2) have
    rd: "dataset_of h (pointer_data_ref eh) = Inr (pointer_data e)" and
    rm: "dataset_of h (medians_ref eh) = Inr (medians e)" and
    tol: "tolerance_val eh = tolerance e"
    unfolding represents_def by simp_all
  from assms(1) obtain p0 dimension m0 dimension_medians where
    p0: "item h (pointer_data_ref eh) 0 = Inr p0" "len_of h p0 = Inr dimension" and
    m0: "item h (medians_ref eh) 0 = Inr m0" "len_of h m0 = Inr dimension_medians" and
    eq: "dimension = dimension_medians" and
    loop: "process_loop_h distance gm (tolerance_val eh * tolerance_val eh) Infinity eh h =
      Some (Inr (), eh', h')"
    by (auto simp: process_h_def Let_def split: sum.splits if_splits)
  have first: "pointer_data e \<noteq> [] \<and> length (pointer_data e ! 0) = dimension"
    if "dataset_of h a = Inr D" "item h a 0 = Inr v" "len_of h v = Inr dimension"
      "D = pointer_data e" for a D v dimension
  proof -
    from dataset_of_point_item [OF that(1)] obtain vs where
      vs: "load h a = Inr vs" "length vs = length D"
        "\<forall>i<length D. point_of h (vs ! i) = Inr (D ! i)" by blast
    from that(2) vs(1) have "vs \<noteq> []" "v = vs ! 0"
      by (auto simp: item_def py_get_0 split: list.splits)
    with vs(2) have ne: "D \<noteq> []" by auto
    then have "0 < length D" by simp
    with vs(3) \<open>v = vs ! 0\<close> have "point_of h v = Inr (D ! 0)" by simp
    note ne this
    with that(3,4) show ?thesis
      by (auto simp: point_of_def len_of_def dest: coordinates_length
          split: val.splits sum.splits)
  qed
  have first_m: "medians e \<noteq> [] \<and> length (medians e ! 0) = dimension_medians"
  proof -
    from dataset_of_point_item [OF rm] obtain vs where
      vs: "load h (medians_ref eh) = Inr vs" "length vs = length (medians e)"
        "\<forall>i<length (medians e). point_of h (vs ! i) = Inr (medians e ! i)" by blast
    from m0(1) vs(1) have "vs \<noteq> []" "m0 = vs ! 0"
      by (auto simp: item_def py_get_0 split: list.splits)
    with vs(2) have ne: "medians e \<noteq> []" by auto
    then have "0 < length (medians e)" by simp
    with vs(3) \<open>m0 = vs ! 0\<close> have "point_of h m0 = Inr (medians e ! 0)" by simp
    note ne this
    with m0(2) show ?thesis
      by (auto simp: point_of_def len_of_def dest: coordinates_length
          split: val.splits sum.splits)
  qed
  from first [OF rd p0 refl] first_m eq have chk:
    "pointer_data e \<noteq> []" "medians e \<noteq> []"
    "length (pointer_data e ! 0) = length (medians e ! 0)" by simp_all
  from process_loop_h_simulates [OF loop] assms(2) obtain e' where
    "process_loop distance gm (tolerance_val eh * tolerance_val eh) Infinity e = Some (Inr e')"
    "represents h' eh' e'" by blast
  with chk tol show ?thesis by (auto simp: process_unfold)
qed

lemma kmedians_init_h_represents:
  assumes "kmedians_init_h data initial_centers tol h = (Inr eh, h')"
    and "initial_centers < length h"
    and "dataset_of h data = Inr D" and "dataset_of h initial_centers = Inr M"
  shows "represents h' eh (kmedians_init D M tol)"
proof -
  note fr = kmedians_init_h_frame [OF assms(1)]
  from fr(2) [OF refl assms(2)] have
    eh: "pointer_data_ref eh = data" "tolerance_val eh = tol"
      "clusters_ref eh = length h" "medians_ref eh = Suc (length h)"
      "length h' = length h + 2" "h' ! clusters_ref eh = []"
      "h' ! medians_ref eh = h ! initial_centers"
    by blast+
  from assms(4) assms(2) have "points_of h (h ! initial_centers) = Inr M"
    by (simp add: dataset_of_def load_def)
  from points_of_Inr [OF this] point_of_extends [OF fr(1)]
  have "points_of h' (h ! initial_centers) = Inr M" by (intro points_of_eqI) auto
  with eh have "dataset_of h' (medians_ref eh) = Inr M"
    by (simp add: dataset_of_def load_def)
  moreover from eh have "clusters_of h' (clusters_ref eh) = Inr []"
    by (simp add: clusters_of_def load_def)
  moreover from dataset_of_extends [OF fr(1) assms(3)] eh
  have "dataset_of h' (pointer_data_ref eh) = Inr D" by simp
  ultimately show ?thesis using eh(2) by (simp add: represents_def kmedians_init_def)
qed

section \<open>The claims\<close>

text \<open>
  C1. For a non-empty prototype sequence on which the distance to every
  dataset point is defined (points and prototypes of matching dimension), the
  assignment step returns \<open>K\<close> clusters, and dataset index \<open>i\<close> is in cluster
  \<open>k\<close> exactly when prototype \<open>k\<close> is the first nearest one: its distance to
  point \<open>i\<close> is minimal and strictly smaller than that of every earlier
  prototype. So a point at the same distance from prototypes \<open>k < j\<close> is never
  put into cluster \<open>j\<close>.
\<close>

theorem update_clusters_nearest_first:
  assumes ne: "medians e \<noteq> []"
    and defd: "\<forall>p\<in>set (pointer_data e). \<forall>m\<in>set (medians e). distance p m \<noteq> None"
  shows "\<exists>cs. update_clusters distance e = Inr cs \<and> length cs = length (medians e) \<and>
     (\<forall>i<length (pointer_data e). \<forall>k<length (medians e).
        i \<in> set (cs ! k) \<longleftrightarrow>
          (\<exists>d. first_min_at distance (pointer_data e ! i) (medians e) (length (medians e)) k d)) \<and>
     (\<forall>i<length (pointer_data e). \<forall>j<length (medians e). \<forall>k<j.
        distance (pointer_data e ! i) (medians e ! k) = distance (pointer_data e ! i) (medians e ! j)
        \<longrightarrow> i \<notin> set (cs ! j))"
proof -
  let ?data = "pointer_data e" and ?ms = "medians e"
  let ?N = "length ?data" and ?K = "length ?ms"
  have "\<forall>i\<in>set [0..<?N]. \<forall>j<?K. distance (?data ! i) (?ms ! j) \<noteq> None"
    using defd by simp
  from assign_points_total [OF ne this, of "replicate ?K []"]
  obtain cs where cs: "update_clusters distance e = Inr cs"
    unfolding update_clusters_def by auto
  have len: "length cs = ?K" by (rule update_clusters_length [OF cs])
  have mem: "i \<in> set (cs ! k) \<longleftrightarrow> (\<exists>d. first_min_at distance (?data ! i) ?ms ?K k d)"
    if i: "i < ?N" and k: "k < ?K" for i k
  proof
    assume "i \<in> set (cs ! k)"
    with update_clusters_members [OF cs k] have "assigned distance ?data ?ms i k" by simp
    with assigned_first_min [OF k] show "\<exists>d. first_min_at distance (?data ! i) ?ms ?K k d"
      by blast
  next
    assume "\<exists>d. first_min_at distance (?data ! i) ?ms ?K k d"
    then obtain d where d: "first_min_at distance (?data ! i) ?ms ?K k d" by blast
    from update_clusters_filter(2) [OF cs] i obtain k' where
      k': "k' < ?K" "assigned distance ?data ?ms i k'" by blast
    with assigned_first_min [OF k'(1)] obtain d' where
      "first_min_at distance (?data ! i) ?ms ?K k' d'" by blast
    with d first_min_at_unique have "k = k'" by fast
    with k' update_clusters_members [OF cs k] i show "i \<in> set (cs ! k)" by simp
  qed
  have tie: "i \<notin> set (cs ! j)"
    if i: "i < ?N" and j: "j < ?K" and k: "k < j"
      and eq: "distance (?data ! i) (?ms ! k) = distance (?data ! i) (?ms ! j)" for i j k
  proof
    assume "i \<in> set (cs ! j)"
    with mem [OF i j] obtain d where "first_min_at distance (?data ! i) ?ms ?K j d" by blast
    then have "distance (?data ! i) (?ms ! j) = Some d"
      and "\<exists>dk. distance (?data ! i) (?ms ! k) = Some dk \<and> d < dk"
      using k unfolding first_min_at_def by blast+
    with eq show False by simp
  qed
  from cs len mem tie show ?thesis by blast
qed

theorem update_clusters_nearest_first_witness:
  "medians tie_engine \<noteq> [] \<and>
   list_all (\<lambda>p. list_all (\<lambda>m. euclidean_distance_sqrt p m \<noteq> None) (medians tie_engine))
     (pointer_data tie_engine) \<and>
   update_clusters euclidean_distance_sqrt tie_engine = Inr [[0, 1], [2]] \<and>
   euclidean_distance_sqrt (pointer_data tie_engine ! 1) (medians tie_engine ! 0) =
     euclidean_distance_sqrt (pointer_data tie_engine ! 1) (medians tie_engine ! 1) \<and>
   first_min_at euclidean_distance_sqrt (pointer_data tie_engine ! 1) (medians tie_engine)
     (length (medians tie_engine)) 0 1"
proof -
  have h1: "medians tie_engine \<noteq> []"
    by (simp add: tie_engine_def kmedians_init_def)
  have h2: "\<forall>p\<in>set (pointer_data tie_engine). \<forall>m\<in>set (medians tie_engine).
      euclidean_distance_sqrt p m \<noteq> None"
    by (simp add: tie_engine_def kmedians_init_def euclidean_distance_sqrt_def)
  have val: "update_clusters euclidean_distance_sqrt tie_engine = Inr [[0, 1], [2]]"
    by code_simp
  have eq: "euclidean_distance_sqrt (pointer_data tie_engine ! 1) (medians tie_engine ! 0) =
     euclidean_distance_sqrt (pointer_data tie_engine ! 1) (medians tie_engine ! 1)"
    by (simp add: tie_engine_def kmedians_init_def euclidean_distance_sqrt_def)
  from update_clusters_nearest_first [OF h1 h2] obtain cs where
    cs: "update_clusters euclidean_distance_sqrt tie_engine = Inr cs" and
    mem: "\<forall>i<length (pointer_data tie_engine). \<forall>k<length (medians tie_engine).
        i \<in> set (cs ! k) \<longleftrightarrow>
          (\<exists>d. first_min_at euclidean_distance_sqrt (pointer_data tie_engine ! i)
                 (medians tie_engine) (length (medians tie_engine)) k d)"
    by blast
  from cs val have cs_val: "cs = [[0, 1], [2]]" by simp
  have "1 < length (pointer_data tie_engine)" "0 < length (medians tie_engine)"
    by (simp_all add: tie_engine_def kmedians_init_def)
  with mem have "1 \<in> set (cs ! 0) \<longleftrightarrow>
       (\<exists>d. first_min_at euclidean_distance_sqrt (pointer_data tie_engine ! 1)
              (medians tie_engine) (length (medians tie_engine)) 0 d)"
    by blast
  then obtain d where
    d: "first_min_at euclidean_distance_sqrt (pointer_data tie_engine ! 1)
          (medians tie_engine) (length (medians tie_engine)) 0 d"
    unfolding cs_val by auto
  then have "d = 1"
    by (simp add: first_min_at_def tie_engine_def kmedians_init_def euclidean_distance_sqrt_def)
  with d have "first_min_at euclidean_distance_sqrt (pointer_data tie_engine ! 1)
      (medians tie_engine) (length (medians tie_engine)) 0 1"
    by simp
  moreover from h2 have "list_all (\<lambda>p. list_all (\<lambda>m. euclidean_distance_sqrt p m \<noteq> None)
      (medians tie_engine)) (pointer_data tie_engine)"
    by (simp add: list_all_iff)
  ultimately show ?thesis using h1 val eq by blast
qed



text \<open>
  C3. \<open>process()\<close> raises the dimension-mismatch error exactly when the first
  dataset point and the first prototype exist and differ in length. It then
  raises it before the loop is entered, with the engine as it was; no run of
  the loop ends in this error.
\<close>

theorem process_dimension_mismatch:
  "((\<exists>s. process distance gm e = Some (Inl (DimensionMismatch, s))) \<longleftrightarrow>
      pointer_data e \<noteq> [] \<and> medians e \<noteq> [] \<and>
      length (pointer_data e ! 0) \<noteq> length (medians e ! 0)) \<and>
   (pointer_data e \<noteq> [] \<and> medians e \<noteq> [] \<and>
      length (pointer_data e ! 0) \<noteq> length (medians e ! 0) \<longrightarrow>
      process distance gm e = Some (Inl (DimensionMismatch, e)))"
proof -
  let ?differ = "pointer_data e \<noteq> [] \<and> medians e \<noteq> [] \<and>
      length (pointer_data e ! 0) \<noteq> length (medians e ! 0)"
  have raised: "process distance gm e = Some (Inl (DimensionMismatch, e))" if ?differ
    using that by (simp add: process_unfold)
  have only: ?differ if "process distance gm e = Some (Inl (DimensionMismatch, s))" for s
  proof (rule ccontr)
    assume no: "\<not> ?differ"
    show False
    proof (cases "pointer_data e = [] \<or> medians e = []")
      case True
      with that show False by (simp add: process_unfold)
    next
      case False
      with no that have
        "process_loop distance gm (tolerance e * tolerance e) Infinity e =
           Some (Inl (DimensionMismatch, s))"
        by (simp add: process_unfold)
      from process_loop_Inl [OF this] show False by simp
    qed
  qed
  from raised only show ?thesis by blast
qed

theorem process_dimension_mismatch_witness:
  "length (pointer_data mismatch_engine ! 0) = 2 \<and>
   length (medians mismatch_engine ! 0) = 3 \<and>
   process euclidean_distance_sqrt geometric_median mismatch_engine =
     Some (Inl (DimensionMismatch, mismatch_engine))"
proof -
  have "pointer_data mismatch_engine \<noteq> []" "medians mismatch_engine \<noteq> []"
    and l: "length (pointer_data mismatch_engine ! 0) = 2"
      "length (medians mismatch_engine ! 0) = 3"
    by (simp_all add: mismatch_engine_def kmedians_init_def)
  with process_dimension_mismatch [of euclidean_distance_sqrt geometric_median mismatch_engine]
  have "process euclidean_distance_sqrt geometric_median mismatch_engine =
     Some (Inl (DimensionMismatch, mismatch_engine))"
    by simp
  with l show ?thesis by simp
qed



text \<open>
  C5. For clusters that are non-empty lists of dataset indices, and a
  geometric-median collaborator that returns a member of each of them, the
  update step returns one prototype per cluster, and prototype \<open>i\<close> is the
  dataset point at the index the collaborator returns for cluster \<open>i\<close>: an
  existing dataset point. The update step leaves the clusters alone: after a
  pass of the loop the engine holds exactly the clusters of the assignment
  step.
\<close>

theorem update_medians_dataset_points:
  assumes "\<forall>c\<in>set (clusters e). c \<noteq> [] \<and> set c \<subseteq> {0..<length (pointer_data e)}"
    and "\<forall>c\<in>set (clusters e). c \<noteq> [] \<longrightarrow> (\<exists>j\<in>set c. gm (pointer_data e) c = Some j)"
  shows "(\<exists>new. update_medians gm e = Inr new \<and> length new = length (clusters e) \<and>
       (\<forall>i<length (clusters e).
          \<exists>j\<in>set (clusters e ! i).
            gm (pointer_data e) (clusters e ! i) = Some j \<and>
            new ! i = pointer_data e ! j \<and> new ! i \<in> set (pointer_data e))) \<and>
     (iteration distance gm s = Inr (s', changes) \<longrightarrow>
        update_clusters distance s = Inr (get_clusters s'))"
proof -
  let ?data = "pointer_data e" and ?cs = "clusters e"
  have pick: "\<exists>j\<in>set (?cs ! i). gm ?data (?cs ! i) = Some j \<and> j < length ?data"
    if "i < length ?cs" for i
  proof -
    from that have "?cs ! i \<in> set ?cs" by simp
    with assms obtain j where "j \<in> set (?cs ! i)" "gm ?data (?cs ! i) = Some j"
      "set (?cs ! i) \<subseteq> {0..<length ?data}" by blast
    then show ?thesis by auto
  qed
  then have "\<forall>i\<in>set [0..<length ?cs]. \<exists>j. gm ?data (?cs ! i) = Some j \<and> j < length ?data"
    by fastforce
  from place_medians_total [of "[0..<length ?cs]" gm ?data ?cs "replicate (length ?cs) []", OF this]
  obtain new where new: "update_medians gm e = Inr new"
    unfolding update_medians_def by blast
  from update_medians_Inr [OF new] have
    len: "length new = length ?cs" and
    each: "\<And>i. i < length ?cs \<Longrightarrow>
       \<exists>j. gm ?data (?cs ! i) = Some j \<and> j < length ?data \<and> new ! i = ?data ! j"
    by blast+
  have "\<exists>j\<in>set (?cs ! i). gm ?data (?cs ! i) = Some j \<and>
      new ! i = ?data ! j \<and> new ! i \<in> set ?data" if "i < length ?cs" for i
    using pick [OF that] each [OF that] by auto
  moreover have "update_clusters distance s = Inr (get_clusters s')"
    if "iteration distance gm s = Inr (s', changes)"
    using iteration_Inr [OF that] by (auto simp: get_clusters_def)
  ultimately show ?thesis using new len by blast
qed

theorem update_medians_dataset_points_witness:
  "list_all (\<lambda>c. c \<noteq> [] \<and> list_all (\<lambda>i. i < length (pointer_data squares_clustered)) c)
     (clusters squares_clustered) \<and>
   geometric_median (pointer_data squares_clustered) [0, 1, 2, 3] = Some 0 \<and>
   geometric_median (pointer_data squares_clustered) [4, 5, 6, 7] = Some 4 \<and>
   update_medians geometric_median squares_clustered = Inr [[0, 0], [10, 10]] \<and>
   update_clusters euclidean_distance_sqrt two_pass_engine = Inr (get_clusters squares_clustered)"
proof -
  have h1: "\<forall>c\<in>set (clusters squares_clustered).
      c \<noteq> [] \<and> set c \<subseteq> {0..<length (pointer_data squares_clustered)}"
    by (simp add: squares_clustered_def)
  have g0: "geometric_median (pointer_data squares_clustered) [0, 1, 2, 3] = Some 0"
    by code_simp
  have g1: "geometric_median (pointer_data squares_clustered) [4, 5, 6, 7] = Some 4"
    by code_simp
  have cl: "clusters squares_clustered = [[0, 1, 2, 3], [4, 5, 6, 7]]"
    by (simp add: squares_clustered_def)
  have h2: "\<forall>c\<in>set (clusters squares_clustered).
      c \<noteq> [] \<longrightarrow> (\<exists>j\<in>set c. geometric_median (pointer_data squares_clustered) c = Some j)"
    unfolding cl using g0 g1 by simp
  have it: "iteration euclidean_distance_sqrt geometric_median two_pass_engine =
      Inr (squares_clustered, 18)"
    by code_simp
  note inst = update_medians_dataset_points [of squares_clustered geometric_median
      euclidean_distance_sqrt two_pass_engine squares_clustered 18, OF h1 h2]
  from inst it have frame:
    "update_clusters euclidean_distance_sqrt two_pass_engine = Inr (get_clusters squares_clustered)"
    by blast
  from inst obtain new where
    new: "update_medians geometric_median squares_clustered = Inr new"
      "length new = length (clusters squares_clustered)" and
    each: "\<forall>i<length (clusters squares_clustered).
       \<exists>j\<in>set (clusters squares_clustered ! i).
         geometric_median (pointer_data squares_clustered) (clusters squares_clustered ! i) = Some j \<and>
         new ! i = pointer_data squares_clustered ! j \<and> new ! i \<in> set (pointer_data squares_clustered)"
    by blast
  from each have "new ! 0 = pointer_data squares_clustered ! 0"
    unfolding cl using g0 by fastforce
  moreover from each have "new ! 1 = pointer_data squares_clustered ! 4"
    unfolding cl using g1 by fastforce
  moreover from new(2) have "length new = 2" by (simp add: cl)
  ultimately have "new = [[0, 0], [10, 10]]"
    by (intro nth_equalityI) (auto simp: squares_clustered_def less_Suc_eq numeral_2_eq_2)
  with new(1) have um: "update_medians geometric_median squares_clustered = Inr [[0, 0], [10, 10]]"
    by simp
  have "list_all (\<lambda>c. c \<noteq> [] \<and> list_all (\<lambda>i. i < length (pointer_data squares_clustered)) c)
     (clusters squares_clustered)"
    by (simp add: squares_clustered_def)
  with g0 g1 um frame show ?thesis by blast
qed




text \<open>
  C7. In the store model, construction and \<open>process()\<close> leave every list
  object that exists when they start as it is, whether they return or raise:
  the dataset list, every point, the caller's list of initial centers.
  Construction puts a copy of the caller's list of initial centers into a new
  object and makes that the engine's prototype list. \<open>process()\<close> changes no
  attribute of the engine other than the clusters and the prototypes, and
  writes only into objects it has created itself.
\<close>

theorem store_objects_never_mutated:
  "(kmedians_init_h data initial_centers tol h0 = (r, h1) \<longrightarrow>
      extends h0 h1 \<and>
      (\<forall>e0. r = Inr e0 \<and> initial_centers < length h0 \<longrightarrow>
         pointer_data_ref e0 = data \<and> tolerance_val e0 = tol \<and>
         length h0 \<le> clusters_ref e0 \<and> length h0 \<le> medians_ref e0 \<and>
         medians_ref e0 < length h1 \<and> clusters_ref e0 < length h1 \<and>
         h1 ! clusters_ref e0 = [] \<and>
         h1 ! medians_ref e0 = h0 ! initial_centers)) \<and>
   (process_h distance gm e h = Some (outcome, e', h') \<longrightarrow>
      extends h h' \<and> pointer_data_ref e' = pointer_data_ref e \<and>
      tolerance_val e' = tolerance_val e)"
proof -
  have construction: "extends h0 h1 \<and>
      (\<forall>e0. r = Inr e0 \<and> initial_centers < length h0 \<longrightarrow>
         pointer_data_ref e0 = data \<and> tolerance_val e0 = tol \<and>
         length h0 \<le> clusters_ref e0 \<and> length h0 \<le> medians_ref e0 \<and>
         medians_ref e0 < length h1 \<and> clusters_ref e0 < length h1 \<and>
         h1 ! clusters_ref e0 = [] \<and>
         h1 ! medians_ref e0 = h0 ! initial_centers)"
    if init: "kmedians_init_h data initial_centers tol h0 = (r, h1)"
    using kmedians_init_h_frame(1) [OF init] kmedians_init_h_frame(2) [OF init]
    by auto
  have processing: "extends h h' \<and> pointer_data_ref e' = pointer_data_ref e \<and>
      tolerance_val e' = tolerance_val e"
    if "process_h distance gm e h = Some (outcome, e', h')"
    using that by (rule process_h_frame)
  from construction processing show ?thesis by blast
qed

theorem store_objects_never_mutated_witness:
  "kmedians_init_h 4 7 0.25 caller_store = (Inr constructed_h, constructed_store) \<and>
   process_h euclidean_distance_sqrt geometric_median constructed_h constructed_store =
     Some (Inr (), clustered_h, clustered_store) \<and>
   extends caller_store constructed_store \<and>
   extends constructed_store clustered_store \<and>
   constructed_store ! medians_ref constructed_h = caller_store ! 7 \<and>
   pointer_data_ref clustered_h = 4"
proof -
  have init: "kmedians_init_h 4 7 0.25 caller_store = (Inr constructed_h, constructed_store)"
    by code_simp
  have run: "process_h euclidean_distance_sqrt geometric_median constructed_h constructed_store =
     Some (Inr (), clustered_h, clustered_store)"
    by code_simp
  have valid: "7 < length caller_store" by (simp add: caller_store_def)
  note inst = store_objects_never_mutated [of 4 7 "0.25" caller_store "Inr constructed_h"
      constructed_store euclidean_distance_sqrt geometric_median constructed_h
      constructed_store "Inr ()" clustered_h clustered_store]
  from inst init valid have
    "extends caller_store constructed_store"
    "constructed_store ! medians_ref constructed_h = caller_store ! 7"
    by blast+
  moreover from inst run have
    "extends constructed_store clustered_store"
    "pointer_data_ref clustered_h = pointer_data_ref constructed_h"
    by blast+
  moreover have "pointer_data_ref constructed_h = 4" by (simp add: constructed_h_def)
  ultimately show ?thesis using init run by simp
qed




text \<open>
  C9. When \<open>process()\<close> raises the dimension-mismatch error, the engine is
  left exactly as it was, so \<open>get_clusters()\<close> and \<open>get_centers()\<close> return what
  they returned before the call; on a freshly constructed engine that is the
  empty cluster list and the initial centers.
\<close>

theorem dimension_mismatch_keeps_engine:
  assumes "process distance gm e = Some (Inl (DimensionMismatch, s))"
  shows "s = e \<and> get_clusters s = get_clusters e \<and> get_centers s = get_centers e \<and>
     (e = kmedians_init data initial_centers tol \<longrightarrow>
        get_clusters s = [] \<and> get_centers s = initial_centers)"
proof -
  have "s = e"
  proof (cases "pointer_data e = [] \<or> medians e = [] \<or>
      length (pointer_data e ! 0) \<noteq> length (medians e ! 0)")
    case True
    with assms show ?thesis by (auto simp: process_unfold split: if_splits)
  next
    case False
    with assms have
      "process_loop distance gm (tolerance e * tolerance e) Infinity e =
         Some (Inl (DimensionMismatch, s))"
      by (simp add: process_unfold)
    from process_loop_Inl [OF this] show ?thesis by simp
  qed
  then show ?thesis
    by (simp add: get_clusters_def get_centers_def kmedians_init_def)
qed

theorem dimension_mismatch_keeps_engine_witness:
  "process euclidean_distance_sqrt geometric_median mismatch_engine =
     Some (Inl (DimensionMismatch, mismatch_engine)) \<and>
   get_clusters mismatch_engine = [] \<and>
   get_centers mismatch_engine = [[0, 0, 0]]"
proof -
  have raised: "process euclidean_distance_sqrt geometric_median mismatch_engine =
     Some (Inl (DimensionMismatch, mismatch_engine))"
    by (simp add: process_unfold mismatch_engine_def kmedians_init_def)
  from dimension_mismatch_keeps_engine [OF raised, of "[[0, 0], [1, 1]]" "[[0, 0, 0]]" "0.25"]
  show ?thesis using raised by (simp add: mismatch_engine_def)
qed



end
